theory Spec2Isabelle
  imports Main "HOL-Library.Word"
begin

section \<open>The collaboration hub of ai-kms\<close>

text \<open>
  A shallow embedding of the session manager of package \<open>collaboration\<close>
  (\<open>session_manager.go\<close> and \<open>websocket_handler.go\<close>) and of the part of the Yjs
  repository it calls. Go pointers are addresses into explicit stores, Go maps are
  partial functions, Go channels are records of a buffer, a capacity and a closed flag.
\<close>

subsection \<open>Data\<close>

type_synonym sref = nat
  \<comment> \<open>a \<open>*Session\<close>\<close>
type_synonym mref = nat
  \<comment> \<open>a \<open>map[int]*models.AwarenessState\<close>: Go maps are reference values\<close>
type_synonym aref = nat
  \<comment> \<open>a \<open>*models.AwarenessState\<close>; the hub stores and returns it, never reads it\<close>
type_synonym bytes = "8 word list"

text \<open>
  What travels on a session's \<open>Send\<close> channel is a \<open>[]byte\<close>. The hub produces three
  kinds of byte strings with \<open>json.Marshal\<close>; they are kept symbolic, by the value
  that is marshalled: \<open>Join uid name\<close> is the encoding of
  \<open>{"type": MessageTypeJoin, "user": {"id": uid, "name": name}}\<close>, \<open>Leave\<close> the same
  with \<open>MessageTypeLeave\<close>, \<open>AwareData m\<close> the encoding of
  \<open>{"type": "awareness", "awareness": m}\<close>. \<open>Raw\<close> is a byte string a client or the
  update log supplied.
\<close>

datatype frame =
    Raw bytes
  | Join string string
  | Leave string string
  | AwareData "int \<rightharpoonup> aref"

record chan =
  ch_buf :: "frame list"
  ch_cap :: nat
  ch_closed :: bool

text \<open>
  \<open>Session\<close> (with the embedded \<open>models.Session\<close>). \<open>Conn\<close>, \<open>Manager\<close>, \<open>State\<close> and
  \<open>ConnectedAt\<close> play no part in the hub's bookkeeping and are left out. Times are
  nanoseconds since the epoch.
\<close>

record Session =
  ID :: string
  DocumentID :: string
  UserID :: string
  UserName :: string
  LastActiveAt :: int
  ClientID :: int
  Send :: chan

record BroadcastMessage =
  msg_DocumentID :: string
  Message :: frame
  Sender :: "sref option"
    \<comment> \<open>\<open>None\<close> is the nil pointer\<close>

record YjsUpdate =
  upd_DocumentID :: string
  Update :: bytes
  upd_ClientID :: int
  CreatedAt :: int

text \<open>
  The repository: the rows of table \<open>yjs_updates\<close> in the order they were inserted,
  and whether the database answers.
\<close>

record YjsRepositoryImpl =
  rows :: "YjsUpdate list"
  available :: bool

text \<open>
  \<open>SessionManager\<close>, together with the objects its pointers lead to: \<open>sessions\<close> is the
  store of \<open>Session\<close> objects, \<open>aware_maps\<close> the store of the inner awareness maps
  and \<open>next_mref\<close> the next unused map address. \<open>broadcast\<close> is the content of the
  buffered channel of that name (capacity 256). The channels \<open>register\<close> and
  \<open>unregister\<close> are unbuffered and hold nothing.
\<close>

record SessionManager =
  documents :: "string \<rightharpoonup> sref set"
  broadcast :: "BroadcastMessage list"
  awareness :: "string \<rightharpoonup> mref"
  yjsRepo :: "YjsRepositoryImpl option"
  sessions :: "sref \<Rightarrow> Session"
  aware_maps :: "mref \<Rightarrow> (int \<rightharpoonup> aref)"
  next_mref :: mref

text \<open>
  How a call ends: it returns (\<open>Done\<close>), the goroutine is parked at a channel send that
  cannot proceed in the state reached (\<open>Blocked\<close>), or the runtime panics (\<open>Panic\<close>; an
  unrecovered panic ends the process, so no state is left).
\<close>

datatype 'a outcome = Done 'a | Blocked 'a | Panic

definition broadcast_cap :: nat where
  "broadcast_cap = 256"

definition send_cap :: nat where
  "send_cap = 256"

definition NewSessionManager :: "(sref \<Rightarrow> Session) \<Rightarrow> SessionManager" where
  "NewSessionManager heap =
     \<lparr>documents = Map.empty, broadcast = [], awareness = Map.empty, yjsRepo = None,
      sessions = heap, aware_maps = (\<lambda>_. Map.empty), next_mref = 0\<rparr>"

definition SetYjsRepository :: "YjsRepositoryImpl \<Rightarrow> SessionManager \<Rightarrow> SessionManager" where
  "SetYjsRepository repo sm = sm\<lparr>yjsRepo := Some repo\<rparr>"

definition room :: "SessionManager \<Rightarrow> string \<Rightarrow> sref set" where
  \<comment> \<open>\<open>sm.documents[d]\<close>: a missing key reads as the nil map, which has no members\<close>
  "room sm d = (case documents sm d of None \<Rightarrow> {} | Some r \<Rightarrow> r)"

subsection \<open>Channel operations\<close>

datatype sendres = Sent chan | Full | Closed

definition try_send :: "frame \<Rightarrow> chan \<Rightarrow> sendres" where
  \<comment> \<open>the send case of a \<open>select\<close> that has a \<open>default\<close>\<close>
  "try_send x ch =
     (if ch_closed ch then Closed
      else if length (ch_buf ch) < ch_cap ch then Sent (ch\<lparr>ch_buf := ch_buf ch @ [x]\<rparr>)
      else Full)"

definition set_send :: "sref \<Rightarrow> chan \<Rightarrow> SessionManager \<Rightarrow> SessionManager" where
  "set_send session ch sm =
     sm\<lparr>sessions := (sessions sm)(session := (sessions sm session)\<lparr>Send := ch\<rparr>)\<rparr>"

definition queue :: "SessionManager \<Rightarrow> sref \<Rightarrow> frame list" where
  "queue sm session = ch_buf (Send (sessions sm session))"

definition send_broadcast :: "BroadcastMessage \<Rightarrow> SessionManager \<Rightarrow> SessionManager outcome" where
  \<comment> \<open>\<open>sm.broadcast <- msg\<close>: the channel is never closed; a full buffer parks the sender\<close>
  "send_broadcast msg sm =
     (if length (broadcast sm) < broadcast_cap
      then Done (sm\<lparr>broadcast := broadcast sm @ [msg]\<rparr>)
      else Blocked sm)"

subsection \<open>The handlers of the hub goroutine\<close>

definition handleRegister :: "sref \<Rightarrow> SessionManager \<Rightarrow> SessionManager outcome" where
  "handleRegister session sm =
     (let s = sessions sm session;
          d = DocumentID s;
          sm1 = sm\<lparr>documents := (documents sm)(d \<mapsto> insert session (room sm d))\<rparr>
      in send_broadcast
           \<lparr>msg_DocumentID = d, Message = Join (UserID s) (UserName s), Sender = Some session\<rparr>
           sm1)"

definition remove_awareness :: "string \<Rightarrow> int \<Rightarrow> SessionManager \<Rightarrow> SessionManager" where
  "remove_awareness d c sm =
     (case awareness sm d of
        None \<Rightarrow> sm
      | Some m \<Rightarrow> sm\<lparr>aware_maps := (aware_maps sm)(m := (aware_maps sm m)(c := None))\<rparr>)"

definition handleUnregister :: "sref \<Rightarrow> SessionManager \<Rightarrow> SessionManager outcome" where
  "handleUnregister session sm =
     (let s = sessions sm session; d = DocumentID s in
      case documents sm d of
        None \<Rightarrow> Done sm
      | Some r \<Rightarrow>
          if session \<notin> r then Done sm
          else if ch_closed (Send s) then Panic
          else
            let r' = r - {session};
                sm1 = set_send session ((Send s)\<lparr>ch_closed := True\<rparr>) sm;
                sm2 = sm1\<lparr>documents :=
                        (if r' = {} then (documents sm1)(d := None)
                         else (documents sm1)(d \<mapsto> r'))\<rparr>;
                sm3 = remove_awareness d (ClientID s) sm2
            in send_broadcast
                 \<lparr>msg_DocumentID = d, Message = Leave (UserID s) (UserName s), Sender = None\<rparr>
                 sm3)"

text \<open>
  \<open>handleBroadcast\<close> ranges over the room in an order the Go runtime chooses. The
  argument \<open>ord\<close> gives the order; it is to enumerate the room (\<open>range_order\<close>), and
  only members of the room are visited whatever it holds. A member whose buffer is full
  makes the hub execute \<open>sm.unregister <- session\<close>. That channel is unbuffered and its
  only receive statement is the \<open>select\<close> of \<open>Start\<close>, which is run by the very
  goroutine that is executing \<open>handleBroadcast\<close>: the send finds no receiver, and the
  hub is parked there.
\<close>

definition range_order :: "sref list \<Rightarrow> sref set \<Rightarrow> bool" where
  "range_order ord S \<longleftrightarrow> distinct ord \<and> set ord = S"

fun broadcast_loop :: "BroadcastMessage \<Rightarrow> sref list \<Rightarrow> SessionManager \<Rightarrow> SessionManager outcome" where
  "broadcast_loop msg [] sm = Done sm"
| "broadcast_loop msg (session # rest) sm =
     (if Sender msg = Some session then broadcast_loop msg rest sm
      else case try_send (Message msg) (Send (sessions sm session)) of
             Sent ch \<Rightarrow> broadcast_loop msg rest (set_send session ch sm)
           | Full \<Rightarrow> Blocked sm
           | Closed \<Rightarrow> Panic)"

definition handleBroadcast :: "sref list \<Rightarrow> BroadcastMessage \<Rightarrow> SessionManager \<Rightarrow> SessionManager outcome" where
  "handleBroadcast ord msg sm =
     broadcast_loop msg (filter (\<lambda>session. session \<in> room sm (msg_DocumentID msg)) ord) sm"

definition Broadcast :: "string \<Rightarrow> frame \<Rightarrow> sref option \<Rightarrow> SessionManager \<Rightarrow> SessionManager outcome" where
  "Broadcast documentID message sender sm =
     send_broadcast \<lparr>msg_DocumentID = documentID, Message = message, Sender = sender\<rparr> sm"

subsection \<open>Awareness\<close>

definition UpdateAwareness :: "string \<Rightarrow> int \<Rightarrow> aref \<Rightarrow> SessionManager \<Rightarrow> SessionManager" where
  "UpdateAwareness documentID clientID state sm =
     (case awareness sm documentID of
        None \<Rightarrow>
          let m = next_mref sm in
          sm\<lparr>awareness := (awareness sm)(documentID \<mapsto> m),
             aware_maps := (aware_maps sm)(m := [clientID \<mapsto> state]),
             next_mref := Suc m\<rparr>
      | Some m \<Rightarrow>
          sm\<lparr>aware_maps := (aware_maps sm)(m := (aware_maps sm m)(clientID \<mapsto> state))\<rparr>)"

definition GetAwareness :: "string \<Rightarrow> SessionManager \<Rightarrow> mref option" where
  \<comment> \<open>\<open>return sm.awareness[documentID]\<close>: the map value itself, nil when the key is missing\<close>
  "GetAwareness documentID sm = awareness sm documentID"

subsection \<open>The update log\<close>

datatype error = DbError

definition StoreUpdate :: "string \<Rightarrow> bytes \<Rightarrow> int \<Rightarrow> int \<Rightarrow> YjsRepositoryImpl \<Rightarrow> error + YjsRepositoryImpl" where
  \<comment> \<open>\<open>now\<close> is the time of the insert, which gorm writes into \<open>created_at\<close>\<close>
  "StoreUpdate documentID update clientID now r =
     (if available r
      then Inr (r\<lparr>rows := rows r @
             [\<lparr>upd_DocumentID = documentID, Update = update, upd_ClientID = clientID,
               CreatedAt = now\<rparr>]\<rparr>)
      else Inl DbError)"

text \<open>
  \<open>GetAllUpdates\<close> is the query \<open>WHERE document_id = ? ORDER BY created_at ASC\<close>. SQL
  leaves the order of rows with equal \<open>created_at\<close> open; the model keeps them in the
  order of insertion, and the properties below that depend on the order are stated for
  rows with different times.
\<close>

definition GetAllUpdates :: "YjsRepositoryImpl \<Rightarrow> string \<Rightarrow> error + YjsUpdate list" where
  "GetAllUpdates r documentID =
     (if available r
      then Inr (sort_key CreatedAt (filter (\<lambda>u. upd_DocumentID u = documentID) (rows r)))
      else Inl DbError)"

subsection \<open>The session of a new connection\<close>

definition go_rem :: "int \<Rightarrow> int \<Rightarrow> int" where
  \<comment> \<open>Go's \<open>%\<close>: the remainder of the division that truncates towards zero\<close>
  "go_rem a b = sgn a * (\<bar>a\<bar> mod \<bar>b\<bar>)"

definition new_session ::
  "string \<Rightarrow> string \<Rightarrow> string \<Rightarrow> string \<Rightarrow> int \<Rightarrow> int \<Rightarrow> int \<Rightarrow> Session" where
  \<comment> \<open>lines 57 to 97 of \<open>HandleDocumentConnection\<close>, the session that is made once the
      upgrade has succeeded: \<open>ksuid\<close> is the identifier
      \<open>models.NewSession\<close> draws, \<open>client_id\<close> what \<open>strconv.Atoi\<close> made of the query
      parameter (0 when it is missing or no number), \<open>nanos\<close> the clock read at line 70
      and \<open>now\<close> the clock read by \<open>models.NewSession\<close>\<close>
  "new_session ksuid documentID user_id user_name client_id nanos now =
     \<lparr>ID = ksuid,
      DocumentID = documentID,
      UserID = (if user_id = [] then ''anonymous'' else user_id),
      UserName = (if user_name = [] then ''Anonymous'' else user_name),
      LastActiveAt = now,
      ClientID = (if client_id = 0 then go_rem nanos 1000000 else client_id),
      Send = \<lparr>ch_buf = [], ch_cap = send_cap, ch_closed = False\<rparr>\<rparr>"

subsection \<open>The sweeper\<close>

text \<open>
  \<open>cleanup\<close> runs in the sweeper's goroutine and holds \<open>sm.mu\<close> from its first line
  to its return. Each stale session is sent on \<open>unregister\<close>. The send is a
  rendezvous with the hub's \<open>select\<close>, so it needs the hub parked there
  (\<open>AtSelect\<close>). The hub then calls \<open>handleUnregister\<close>, whose first statement is
  \<open>sm.mu.Lock()\<close>: it waits for the sweeper (\<open>AtLock\<close>) and is not back at the
  \<open>select\<close> before \<open>cleanup\<close> has returned.
\<close>

datatype hub_pc = AtSelect | AtLock sref

definition timeout :: int where
  "timeout = 5 * 60 * 1000000000"

definition send_unregister :: "sref \<Rightarrow> hub_pc \<Rightarrow> hub_pc outcome" where
  "send_unregister session pc =
     (case pc of AtSelect \<Rightarrow> Done (AtLock session) | AtLock waiting \<Rightarrow> Blocked pc)"

fun cleanup_sessions :: "int \<Rightarrow> (sref \<Rightarrow> Session) \<Rightarrow> sref list \<Rightarrow> hub_pc \<Rightarrow> hub_pc outcome" where
  "cleanup_sessions now heap [] pc = Done pc"
| "cleanup_sessions now heap (session # rest) pc =
     (if now - LastActiveAt (heap session) > timeout
      then (case send_unregister session pc of
              Done pc' \<Rightarrow> cleanup_sessions now heap rest pc'
            | Blocked pc' \<Rightarrow> Blocked pc'
            | Panic \<Rightarrow> Panic)
      else cleanup_sessions now heap rest pc)"

text \<open>
  The outer range visits the rooms in the order of \<open>ord\<close>, each with the order in
  which its members are visited; \<open>ord\<close> is to enumerate the rooms and their members
  (\<open>cleanup_order\<close>).
\<close>

fun cleanup :: "int \<Rightarrow> (string \<times> sref list) list \<Rightarrow> hub_pc \<times> SessionManager \<Rightarrow>
    (hub_pc \<times> SessionManager) outcome" where
  "cleanup now [] (pc, sm) = Done (pc, sm)"
| "cleanup now ((docID, members) # rest) (pc, sm) =
     (case cleanup_sessions now (sessions sm) members pc of
        Done pc' \<Rightarrow>
          cleanup now rest
            (pc', if members = [] then sm\<lparr>documents := (documents sm)(docID := None)\<rparr> else sm)
      | Blocked pc' \<Rightarrow> Blocked (pc', sm)
      | Panic \<Rightarrow> Panic)"

definition cleanup_order :: "(string \<times> sref list) list \<Rightarrow> SessionManager \<Rightarrow> bool" where
  "cleanup_order ord sm \<longleftrightarrow>
     distinct (map fst ord) \<and> set (map fst ord) = dom (documents sm) \<and>
     (\<forall>(d, members) \<in> set ord. range_order members (room sm d))"

definition hub_resume :: "hub_pc \<times> SessionManager \<Rightarrow> SessionManager outcome" where
  \<comment> \<open>once the sweeper has released the lock the hub goes on with what it received\<close>
  "hub_resume st =
     (case fst st of
        AtSelect \<Rightarrow> Done (snd st)
      | AtLock session \<Rightarrow> handleUnregister session (snd st))"

subsection \<open>Events\<close>

text \<open>
  What happens to the hub's state, one event at a time. \<open>Register\<close>, \<open>Unregister\<close> and
  \<open>Deliver\<close> are the three receive cases of the \<open>select\<close> in \<open>Start\<close>; \<open>Deliver ord\<close>
  takes the oldest message out of \<open>broadcast\<close>, and \<open>ord\<close> is the order in which the
  range visits the room. The others come from the sessions' goroutines: a call of
  \<open>Broadcast\<close> (which waits, changing nothing, while the buffer is full), a call of
  \<open>UpdateAwareness\<close>, \<open>WritePump\<close> receiving one frame from its \<open>Send\<close> channel, and
  \<open>ReadPump\<close> or its pong handler setting \<open>LastActiveAt\<close> to the time read.
\<close>

datatype event =
    Register sref
  | Unregister sref
  | Deliver "sref list"
  | CallBroadcast string frame "sref option"
  | CallUpdateAwareness string int aref
  | Receive sref
  | Active sref int

fun step :: "event \<Rightarrow> SessionManager \<Rightarrow> SessionManager outcome" where
  "step (Register session) sm = handleRegister session sm"
| "step (Unregister session) sm = handleUnregister session sm"
| "step (Deliver ord) sm =
     (case broadcast sm of
        [] \<Rightarrow> Done sm
      | msg # pending \<Rightarrow> handleBroadcast ord msg (sm\<lparr>broadcast := pending\<rparr>))"
| "step (CallBroadcast documentID message sender) sm =
     (case Broadcast documentID message sender sm of
        Done sm' \<Rightarrow> Done sm'
      | Blocked sm' \<Rightarrow> Done sm
      | Panic \<Rightarrow> Panic)"
| "step (CallUpdateAwareness documentID clientID state) sm =
     Done (UpdateAwareness documentID clientID state sm)"
| "step (Receive session) sm =
     Done (set_send session
             ((Send (sessions sm session))\<lparr>ch_buf := tl (ch_buf (Send (sessions sm session)))\<rparr>)
             sm)"
| "step (Active session now) sm =
     Done (sm\<lparr>sessions := (sessions sm)(session := (sessions sm session)\<lparr>LastActiveAt := now\<rparr>)\<rparr>)"

fun run :: "event list \<Rightarrow> SessionManager \<Rightarrow> SessionManager outcome" where
  "run [] sm = Done sm"
| "run (e # es) sm =
     (case step e sm of
        Done sm' \<Rightarrow> run es sm'
      | Blocked sm' \<Rightarrow> Blocked sm'
      | Panic \<Rightarrow> Panic)"

definition stands_at :: "SessionManager outcome \<Rightarrow> SessionManager \<Rightarrow> bool" where
  \<comment> \<open>the state in which the goroutine has returned or is parked\<close>
  "stands_at out sm \<longleftrightarrow> out = Done sm \<or> out = Blocked sm"

definition registered :: "SessionManager \<Rightarrow> sref \<Rightarrow> bool" where
  "registered sm session \<longleftrightarrow> session \<in> room sm (DocumentID (sessions sm session))"

definition has_room :: "SessionManager \<Rightarrow> sref \<Rightarrow> bool" where
  \<comment> \<open>the session's channel is open and its buffer is not full\<close>
  "has_room sm session \<longleftrightarrow>
     \<not> ch_closed (Send (sessions sm session)) \<and>
     length (ch_buf (Send (sessions sm session))) < ch_cap (Send (sessions sm session))"

definition recipients :: "SessionManager \<Rightarrow> BroadcastMessage \<Rightarrow> sref set" where
  "recipients sm msg = {r \<in> room sm (msg_DocumentID msg). Sender msg \<noteq> Some r}"

subsection \<open>The goroutine of a new connection\<close>

text \<open>
  \<open>HandleDocumentConnection\<close> runs in the goroutine of the HTTP request, beside the hub
  and the goroutines of the other sessions. None of them waits for it, so each of its
  steps finds the state the others have left in the meantime. What they do is given
  by a schedule: its first element is the events that take place before the next step
  of this goroutine, its second element those before the step after that, and so on.
  The empty schedule is a goroutine that is not overtaken. \<open>run\<close> stops where the hub
  gets parked, and this goroutine goes on from the state reached there; what is left
  of the schedule is then for the goroutines other than the hub.
\<close>

definition others ::
  "event list list \<Rightarrow> SessionManager \<Rightarrow> (event list list \<times> SessionManager) option" where
  \<comment> \<open>what is left of the schedule and the state the others leave; \<open>None\<close> is a panic\<close>
  "others schedule sm =
     (case schedule of
        [] \<Rightarrow> Some ([], sm)
      | es # later \<Rightarrow>
          (case run es sm of
             Done sm' \<Rightarrow> Some (later, sm')
           | Blocked sm' \<Rightarrow> Some (later, sm')
           | Panic \<Rightarrow> None))"

text \<open>
  The loop of \<open>sendInitialState\<close> over the updates (lines 127 to 134): each turn is
  one \<open>select\<close> with a \<open>default\<close>, and the others may act before each turn. The
  loop never waits; the result carries what is left of the schedule, and \<open>None\<close> is a
  panic.
\<close>

fun send_updates ::
  "sref \<Rightarrow> YjsUpdate list \<Rightarrow> event list list \<Rightarrow> SessionManager \<Rightarrow>
   (event list list \<times> SessionManager) option" where
  "send_updates session [] schedule sm = Some (schedule, sm)"
| "send_updates session (u # us) schedule sm =
     (case others schedule sm of
        None \<Rightarrow> None
      | Some (later, sm') \<Rightarrow>
          (case try_send (Raw (Update u)) (Send (sessions sm' session)) of
             Sent ch \<Rightarrow> send_updates session us later (set_send session ch sm')
           | Full \<Rightarrow> send_updates session us later sm'
           | Closed \<Rightarrow> None))"

text \<open>
  The awareness part (lines 140 to 148). \<open>json.Marshal\<close> is not code of this
  repository: \<open>marshals m\<close> says whether it encodes the awareness map \<open>m\<close> without an
  error (it fails on a state value that JSON cannot express), and on an error nothing
  is sent. \<open>session.Send <- awareData\<close> is a plain send: with the buffer full it waits
  for room. The others may act before the map is fetched and encoded, and again before
  the send.
\<close>

definition send_awareness ::
  "((int \<rightharpoonup> aref) \<Rightarrow> bool) \<Rightarrow> sref \<Rightarrow> event list list \<Rightarrow> SessionManager \<Rightarrow>
   SessionManager outcome" where
  "send_awareness marshals session schedule sm =
     (case others schedule sm of
        None \<Rightarrow> Panic
      | Some (later, sm1) \<Rightarrow>
          (case GetAwareness (DocumentID (sessions sm1 session)) sm1 of
             None \<Rightarrow> Done sm1
           | Some m \<Rightarrow>
               if marshals (aware_maps sm1 m)
               then (case others later sm1 of
                       None \<Rightarrow> Panic
                     | Some (rest, sm2) \<Rightarrow>
                         (case try_send (AwareData (aware_maps sm1 m)) (Send (sessions sm2 session)) of
                            Sent ch \<Rightarrow> Done (set_send session ch sm2)
                          | Full \<Rightarrow> Blocked sm2
                          | Closed \<Rightarrow> Panic))
               else Done sm1))"

definition sendInitialState ::
  "((int \<rightharpoonup> aref) \<Rightarrow> bool) \<Rightarrow> sref \<Rightarrow> event list list \<Rightarrow> SessionManager \<Rightarrow>
   SessionManager outcome" where
  "sendInitialState marshals session schedule sm =
     (case yjsRepo sm of
        None \<Rightarrow> send_awareness marshals session schedule sm
      | Some repo \<Rightarrow>
          (case GetAllUpdates repo (DocumentID (sessions sm session)) of
             Inl err \<Rightarrow> Done sm
           | Inr updates \<Rightarrow>
               (case send_updates session updates schedule sm of
                  None \<Rightarrow> Panic
                | Some (later, sm') \<Rightarrow> send_awareness marshals session later sm')))"

text \<open>
  \<open>HandleDocumentConnection\<close> from the upgrade to the call of \<open>sendInitialState\<close>
  (lines 82 to 103), and how far it gets before the replay:

  \<^item> \<open>UpgradeFailed\<close>: \<open>upgrader.Upgrade\<close> returned an error. The handler returns, and
    no session has been made.
  \<^item> \<open>NotTaken\<close>: the new object (\<open>new_session\<close>) is stored at address \<open>p\<close> and sent
    on \<open>register\<close>. The send is a rendezvous with the \<open>select\<close> of the hub; a hub that
    is parked never comes back to it, and the handler waits at line 100 for good.
  \<^item> \<open>Taken\<close>: the hub takes the session, and \<open>sm\<close> is the state at that moment. The
    hub's next statement is \<open>handleRegister\<close>; it touches the registry and the hub's
    broadcast buffer, which \<open>sendInitialState\<close> neither reads nor writes, and is taken
    first. The handler does not wait for it, and goes on to \<open>sendInitialState\<close> also
    when the hub is parked in \<open>handleRegister\<close>: the outcome is that of the handler's
    goroutine.

  The pumps of the new session are started when \<open>sendInitialState\<close> has returned, so
  nothing is read from the new session's channel before.
\<close>

datatype handover = UpgradeFailed | NotTaken | Taken

definition HandleDocumentConnection ::
  "handover \<Rightarrow> ((int \<rightharpoonup> aref) \<Rightarrow> bool) \<Rightarrow> sref \<Rightarrow> Session \<Rightarrow> event list list \<Rightarrow>
   SessionManager \<Rightarrow> SessionManager outcome" where
  "HandleDocumentConnection how marshals p session schedule sm =
     (case how of
        UpgradeFailed \<Rightarrow> Done sm
      | NotTaken \<Rightarrow> Blocked (sm\<lparr>sessions := (sessions sm)(p := session)\<rparr>)
      | Taken \<Rightarrow>
          (case handleRegister p (sm\<lparr>sessions := (sessions sm)(p := session)\<rparr>) of
             Done sm' \<Rightarrow> sendInitialState marshals p schedule sm'
           | Blocked sm' \<Rightarrow> sendInitialState marshals p schedule sm'
           | Panic \<Rightarrow> Panic))"

definition enqueue :: "frame \<Rightarrow> sref \<Rightarrow> SessionManager \<Rightarrow> SessionManager" where
  \<comment> \<open>the state with one more frame at the end of the session's \<open>Send\<close> buffer\<close>
  "enqueue x session sm =
     set_send session
       ((Send (sessions sm session))\<lparr>ch_buf := ch_buf (Send (sessions sm session)) @ [x]\<rparr>) sm"

subsection \<open>Invariants and sample data\<close>

definition nonempty_rooms :: "SessionManager \<Rightarrow> bool" where
  "nonempty_rooms sm \<longleftrightarrow> (\<forall>d. documents sm d \<noteq> Some {})"

definition keyed :: "SessionManager \<Rightarrow> bool" where
  \<comment> \<open>a session is only ever a member of the room of its own document\<close>
  "keyed sm \<longleftrightarrow> (\<forall>d r. r \<in> room sm d \<longrightarrow> DocumentID (sessions sm r) = d)"

definition maps_apart :: "SessionManager \<Rightarrow> bool" where
  \<comment> \<open>every inner awareness map was made by \<open>UpdateAwareness\<close>, one per document\<close>
  "maps_apart sm \<longleftrightarrow>
     (\<forall>d m. awareness sm d = Some m \<longrightarrow> m < next_mref sm) \<and>
     (\<forall>d d' m. awareness sm d = Some m \<longrightarrow> awareness sm d' = Some m \<longrightarrow> d = d')"

definition same_identity :: "SessionManager \<Rightarrow> SessionManager \<Rightarrow> bool" where
  "same_identity sm sm' \<longleftrightarrow>
     (\<forall>r. DocumentID (sessions sm' r) = DocumentID (sessions sm r) \<and>
          ClientID (sessions sm' r) = ClientID (sessions sm r))"

text \<open>
  Sample objects: the sessions at addresses below 4 are on \<open>doc1\<close>, the others on
  \<open>doc2\<close>; the session at address \<open>r\<close> has client id \<open>r\<close>, except that address 0,
  with no client id given, gets the generated one.
\<close>

definition demo_heap :: "sref \<Rightarrow> Session" where
  "demo_heap r =
     new_session ''2BkYU9f3T6xYh8rQ1pKJVW4vZ9L'' (if r < 4 then ''doc1'' else ''doc2'')
       ''alice'' ''Alice'' (int r) 1699999999999123456 1700000000000000000"

text \<open>A hub at rest: the three sessions of \<open>doc1\<close> are in their room, nothing is pending.\<close>

definition demo_room :: SessionManager where
  "demo_room =
     \<lparr>documents = [''doc1'' \<mapsto> {1, 2, 3}], broadcast = [], awareness = Map.empty,
      yjsRepo = None, sessions = demo_heap, aware_maps = (\<lambda>_. Map.empty), next_mref = 0\<rparr>"

definition push :: "frame \<Rightarrow> Session \<Rightarrow> Session" where
  \<comment> \<open>the session with one more frame at the end of its \<open>Send\<close> buffer\<close>
  "push x s = s\<lparr>Send := (Send s)\<lparr>ch_buf := ch_buf (Send s) @ [x]\<rparr>\<rparr>"

text \<open>
  A room with a member that does not read: session 2 of \<open>doc1\<close> has its buffer filled
  to capacity. \<open>backlog k\<close> is the room with \<open>k\<close> frames waiting for session 2, and
  \<open>one_more\<close> the events that add one: session 1 sends a frame, the hub delivers it to 2
  and 3, and only session 3 takes it off its channel.
\<close>

definition saturated :: "Session \<Rightarrow> Session" where
  "saturated s = s\<lparr>Send := (Send s)\<lparr>ch_buf := replicate (ch_cap (Send s)) (Raw [])\<rparr>\<rparr>"

definition stalled_room :: SessionManager where
  "stalled_room = demo_room\<lparr>sessions := demo_heap(2 := saturated (demo_heap 2))\<rparr>"

definition backlog :: "nat \<Rightarrow> SessionManager" where
  "backlog k = demo_room\<lparr>sessions := demo_heap(2 :=
      (demo_heap 2)\<lparr>Send := (Send (demo_heap 2))\<lparr>ch_buf := replicate k (Raw [])\<rparr>\<rparr>)\<rparr>"

definition one_more :: "event list" where
  "one_more = [CallBroadcast ''doc1'' (Raw []) (Some 1), Deliver [1, 2, 3], Receive 3]"

definition stale :: "int \<Rightarrow> (sref \<Rightarrow> Session) \<Rightarrow> sref \<Rightarrow> bool" where
  \<comment> \<open>the test of \<open>cleanup\<close>: \<open>now.Sub(session.LastActiveAt) > timeout\<close>\<close>
  "stale now heap session \<longleftrightarrow> now - LastActiveAt (heap session) > timeout"

definition caller_store :: "mref \<Rightarrow> int \<Rightarrow> aref \<Rightarrow> SessionManager \<Rightarrow> SessionManager" where
  \<comment> \<open>a caller of \<open>GetAwareness\<close> assigning \<open>aware[clientID] = state\<close> on the map it got\<close>
  "caller_store m clientID state sm =
     sm\<lparr>aware_maps := (aware_maps sm)(m := (aware_maps sm m)(clientID \<mapsto> state))\<rparr>"

text \<open>
  The room of \<open>doc1\<close> some minutes later: session 1 was last active at the start,
  session 2 a hundred seconds after it and session 3 three hundred seconds after it.
\<close>

definition aged_room :: SessionManager where
  "aged_room = demo_room\<lparr>sessions := demo_heap
      (2 := (demo_heap 2)\<lparr>LastActiveAt := 1700000100000000000\<rparr>,
       3 := (demo_heap 3)\<lparr>LastActiveAt := 1700000300000000000\<rparr>)\<rparr>"

text \<open>Sequencing within one trace, and what a session's buffer holds where a call stands.\<close>

definition and_then :: "'a outcome \<Rightarrow> ('a \<Rightarrow> 'a outcome) \<Rightarrow> 'a outcome" where
  "and_then out f = (case out of Done a \<Rightarrow> f a | Blocked a \<Rightarrow> Blocked a | Panic \<Rightarrow> Panic)"

definition queue_at :: "sref \<Rightarrow> SessionManager outcome \<Rightarrow> frame list option" where
  "queue_at session out =
     (case out of Done sm \<Rightarrow> Some (queue sm session) | Blocked sm \<Rightarrow> Some (queue sm session)
      | Panic \<Rightarrow> None)"

text \<open>
  An update log with two updates of \<open>doc1\<close> and one of \<open>doc2\<close> between them, and a new
  session for \<open>doc1\<close>.
\<close>

definition demo_log :: YjsRepositoryImpl where
  "demo_log =
     \<lparr>rows =
        [\<lparr>upd_DocumentID = ''doc1'', Update = [1, 1], upd_ClientID = 1,
          CreatedAt = 1700000000000000100\<rparr>,
         \<lparr>upd_DocumentID = ''doc2'', Update = [9], upd_ClientID = 5,
          CreatedAt = 1700000000000000200\<rparr>,
         \<lparr>upd_DocumentID = ''doc1'', Update = [2, 2], upd_ClientID = 2,
          CreatedAt = 1700000000000000300\<rparr>],
      available = True\<rparr>"

definition carol :: Session where
  "carol = new_session ''2BkYUAcarolcarolcarolcarol0'' ''doc1'' ''carol'' ''Carol'' 7
     1700000000000000399 1700000000000000400"

definition logged_stalled_room :: SessionManager where
  "logged_stalled_room = SetYjsRepository demo_log stalled_room"


definition marshals_all :: "(int \<rightharpoonup> aref) \<Rightarrow> bool" where
  \<comment> \<open>every awareness state in use can be encoded\<close>
  "marshals_all m = True"

definition parked :: "'a outcome \<Rightarrow> bool" where
  "parked out = (case out of Done a \<Rightarrow> False | Blocked a \<Rightarrow> True | Panic \<Rightarrow> False)"

definition members_at :: "string \<Rightarrow> SessionManager outcome \<Rightarrow> sref set option" where
  "members_at d out =
     (case out of Done sm \<Rightarrow> Some (room sm d) | Blocked sm \<Rightarrow> Some (room sm d) | Panic \<Rightarrow> None)"

definition pending_at :: "SessionManager outcome \<Rightarrow> BroadcastMessage list option" where
  "pending_at out =
     (case out of Done sm \<Rightarrow> Some (broadcast sm) | Blocked sm \<Rightarrow> Some (broadcast sm)
      | Panic \<Rightarrow> None)"

text \<open>
  The room at rest with the update log attached; the same with one broadcast of
  session 1 waiting in the hub's buffer; and the same with the hub's buffer full.
\<close>

definition logged_room :: SessionManager where
  "logged_room = SetYjsRepository demo_log demo_room"

definition pending_room :: SessionManager where
  "pending_room = logged_room
     \<lparr>broadcast := [\<lparr>msg_DocumentID = ''doc1'', Message = Raw [9], Sender = Some 1\<rparr>]\<rparr>"

definition busy_room :: SessionManager where
  "busy_room = logged_room
     \<lparr>broadcast := replicate 256 \<lparr>msg_DocumentID = ''doc1'', Message = Raw [], Sender = Some 1\<rparr>\<rparr>"

text \<open>
  The new session at address 7 in the room: \<open>joined_room\<close> is the state when the hub
  has registered it, with the join message waiting in the hub's buffer; \<open>admitted\<close> is
  the hub delivering that message and the members reading it. \<open>crowd k\<close> is the room
  with \<open>k\<close> broadcast frames waiting for the new session, whose pumps are not running
  yet, and \<open>flood\<close> the events that add one: session 1 sends a frame, the hub delivers
  it, and sessions 2 and 3 take it off their channels.
\<close>

definition joined_room :: SessionManager where
  "joined_room = logged_room
     \<lparr>documents := [''doc1'' \<mapsto> {1, 2, 3, 7}],
      broadcast := [\<lparr>msg_DocumentID = ''doc1'', Message = Join ''carol'' ''Carol'', Sender = Some 7\<rparr>],
      sessions := demo_heap(7 := carol)\<rparr>"

definition admitted :: "event list" where
  "admitted = [Deliver [1, 2, 3, 7], Receive 1, Receive 2, Receive 3]"

definition flood :: "event list" where
  "flood = [CallBroadcast ''doc1'' (Raw []) (Some 1), Deliver [1, 2, 3, 7], Receive 2, Receive 3]"

definition crowd :: "nat \<Rightarrow> SessionManager" where
  "crowd k = logged_room
     \<lparr>documents := [''doc1'' \<mapsto> {1, 2, 3, 7}],
      sessions := demo_heap(7 := carol\<lparr>Send := (Send carol)\<lparr>ch_buf := replicate k (Raw [])\<rparr>\<rparr>)\<rparr>"

text \<open>
  An update log with 300 updates of \<open>doc1\<close>, one nanosecond apart, and the room at rest
  with that log attached and an awareness entry for client 1 of \<open>doc1\<close>.
\<close>

definition long_log :: YjsRepositoryImpl where
  "long_log =
     \<lparr>rows = map (\<lambda>i. \<lparr>upd_DocumentID = ''doc1'', Update = [1], upd_ClientID = 1,
                        CreatedAt = 1700000000000000000 + int i\<rparr>) [0..<300],
      available = True\<rparr>"

definition lively_room :: SessionManager where
  "lively_room = UpdateAwareness ''doc1'' 1 100 (SetYjsRepository long_log demo_room)"

text \<open>
  What a caller reads for a client: \<open>GetAwareness(d)[c]\<close>. A pair of document and
  client id is \<open>unowned\<close> when no registered session carries it.
\<close>

definition lookup_awareness :: "SessionManager \<Rightarrow> string \<Rightarrow> int \<Rightarrow> aref option" where
  "lookup_awareness sm d c =
     (case GetAwareness d sm of None \<Rightarrow> None | Some m \<Rightarrow> aware_maps sm m c)"

definition entry_at :: "string \<Rightarrow> int \<Rightarrow> SessionManager outcome \<Rightarrow> aref option option" where
  "entry_at d c out =
     (case out of Done sm \<Rightarrow> Some (lookup_awareness sm d c)
      | Blocked sm \<Rightarrow> Some (lookup_awareness sm d c) | Panic \<Rightarrow> None)"

definition unowned :: "SessionManager \<Rightarrow> string \<Rightarrow> int \<Rightarrow> bool" where
  "unowned sm d c \<longleftrightarrow>
     (\<forall>r. registered sm r \<longrightarrow>
        \<not> (DocumentID (sessions sm r) = d \<and> ClientID (sessions sm r) = c))"

text \<open>
  Two connections of the same user that pass the same \<open>client_id\<close> parameter: the
  sessions at addresses 1 and 2 are both on \<open>doc1\<close> with client id 1.
\<close>

definition twin_heap :: "sref \<Rightarrow> Session" where
  "twin_heap = demo_heap(2 :=
     new_session ''2BkYUAtwintwintwintwintwin0'' ''doc1'' ''alice'' ''Alice'' 1
       1700000000000000499 1700000000000000500)"

section \<open>Properties\<close>

subsection \<open>What each handler changes\<close>

lemma stands_at_Done [simp]: "stands_at (Done a) b \<longleftrightarrow> a = b"
  by (auto simp: stands_at_def)

lemma stands_at_Blocked [simp]: "stands_at (Blocked a) b \<longleftrightarrow> a = b"
  by (auto simp: stands_at_def)

lemma stands_at_Panic [simp]: "\<not> stands_at Panic b"
  by (simp add: stands_at_def)

lemma stands_at_send_broadcast:
  "stands_at (send_broadcast msg sm) sm' \<Longrightarrow>
   documents sm' = documents sm \<and> sessions sm' = sessions sm \<and> awareness sm' = awareness sm \<and>
   aware_maps sm' = aware_maps sm \<and> next_mref sm' = next_mref sm \<and> yjsRepo sm' = yjsRepo sm"
  by (auto simp: send_broadcast_def split: if_splits)

lemma documents_handleRegister:
  "stands_at (handleRegister s sm) sm' \<Longrightarrow>
   documents sm' =
     (documents sm)(DocumentID (sessions sm s) \<mapsto> insert s (room sm (DocumentID (sessions sm s))))"
  by (auto simp: handleRegister_def Let_def dest!: stands_at_send_broadcast)

lemma frame_handleRegister:
  "stands_at (handleRegister s sm) sm' \<Longrightarrow>
   sessions sm' = sessions sm \<and> awareness sm' = awareness sm \<and>
   aware_maps sm' = aware_maps sm \<and> next_mref sm' = next_mref sm \<and> yjsRepo sm' = yjsRepo sm"
  by (auto simp: handleRegister_def Let_def dest!: stands_at_send_broadcast)

lemma documents_handleUnregister:
  "stands_at (handleUnregister s sm) sm' \<Longrightarrow>
   documents sm' =
     (if registered sm s
      then (if room sm (DocumentID (sessions sm s)) - {s} = {}
            then (documents sm)(DocumentID (sessions sm s) := None)
            else (documents sm)(DocumentID (sessions sm s) \<mapsto>
                   room sm (DocumentID (sessions sm s)) - {s}))
      else documents sm)"
  by (auto simp: handleUnregister_def Let_def registered_def room_def set_send_def
      remove_awareness_def split: option.splits if_splits dest!: stands_at_send_broadcast)

lemma frame_handleUnregister:
  "stands_at (handleUnregister s sm) sm' \<Longrightarrow>
   same_identity sm sm' \<and> awareness sm' = awareness sm \<and> next_mref sm' = next_mref sm \<and>
   yjsRepo sm' = yjsRepo sm"
  by (auto simp: handleUnregister_def Let_def set_send_def remove_awareness_def same_identity_def
      split: option.splits if_splits dest!: stands_at_send_broadcast)

lemma awareness_handleUnregister:
  assumes "registered sm s" and "stands_at (handleUnregister s sm) sm'"
  shows "GetAwareness (DocumentID (sessions sm s)) sm' = GetAwareness (DocumentID (sessions sm s)) sm
    \<and> (\<forall>m. GetAwareness (DocumentID (sessions sm s)) sm' = Some m \<longrightarrow>
           aware_maps sm' m (ClientID (sessions sm s)) = None)"
  using assms
  by (auto simp: handleUnregister_def Let_def registered_def room_def set_send_def
      remove_awareness_def GetAwareness_def
      split: option.splits if_splits dest!: stands_at_send_broadcast)

lemma frame_broadcast_loop:
  "stands_at (broadcast_loop msg ord sm) sm' \<Longrightarrow>
   documents sm' = documents sm \<and> awareness sm' = awareness sm \<and> aware_maps sm' = aware_maps sm
   \<and> next_mref sm' = next_mref sm \<and> broadcast sm' = broadcast sm \<and> yjsRepo sm' = yjsRepo sm
   \<and> same_identity sm sm'"
proof (induction msg ord sm rule: broadcast_loop.induct)
  case (1 msg sm)
  then show ?case by (simp add: same_identity_def)
next
  case (2 msg session rest sm)
  then show ?case
    by (auto simp: set_send_def same_identity_def split: if_splits sendres.splits)
qed

lemma frame_handleBroadcast:
  "stands_at (handleBroadcast ord msg sm) sm' \<Longrightarrow>
   documents sm' = documents sm \<and> awareness sm' = awareness sm \<and> aware_maps sm' = aware_maps sm
   \<and> next_mref sm' = next_mref sm \<and> broadcast sm' = broadcast sm \<and> yjsRepo sm' = yjsRepo sm
   \<and> same_identity sm sm'"
  unfolding handleBroadcast_def by (rule frame_broadcast_loop)

lemma handleBroadcast_range_order:
  "range_order ord (room sm (msg_DocumentID msg)) \<Longrightarrow>
   handleBroadcast ord msg sm = broadcast_loop msg ord sm"
  by (simp add: handleBroadcast_def range_order_def)

lemma frame_step:
  assumes "stands_at (step e sm) sm'"
  shows "same_identity sm sm' \<and> yjsRepo sm' = yjsRepo sm"
proof (cases e)
  case (Register s)
  then show ?thesis
    using assms frame_handleRegister[of s sm sm'] by (auto simp: same_identity_def)
next
  case (Unregister s)
  then show ?thesis using assms frame_handleUnregister[of s sm sm'] by auto
next
  case (Deliver ord)
  then show ?thesis
    using assms frame_handleBroadcast[of ord _ _ sm']
    by (auto simp: same_identity_def split: list.splits)
next
  case (CallBroadcast d m s)
  then show ?thesis
    using assms
    by (auto simp: Broadcast_def send_broadcast_def same_identity_def split: if_splits)
next
  case (CallUpdateAwareness d c a)
  then show ?thesis
    using assms
    by (auto simp: UpdateAwareness_def same_identity_def Let_def split: option.splits)
next
  case (Receive s)
  then show ?thesis using assms by (auto simp: set_send_def same_identity_def)
next
  case (Active s now)
  then show ?thesis using assms by (auto simp: same_identity_def)
qed

lemma documents_step:
  assumes "stands_at (step e sm) sm'"
  shows "documents sm' =
     (case e of
        Register s \<Rightarrow>
          (documents sm)(DocumentID (sessions sm s) \<mapsto>
             insert s (room sm (DocumentID (sessions sm s))))
      | Unregister s \<Rightarrow>
          (if registered sm s
           then (if room sm (DocumentID (sessions sm s)) - {s} = {}
                 then (documents sm)(DocumentID (sessions sm s) := None)
                 else (documents sm)(DocumentID (sessions sm s) \<mapsto>
                        room sm (DocumentID (sessions sm s)) - {s}))
           else documents sm)
      | _ \<Rightarrow> documents sm)"
proof (cases e)
  case (Register s)
  then show ?thesis using assms documents_handleRegister[of s sm sm'] by simp
next
  case (Unregister s)
  then show ?thesis using assms documents_handleUnregister[of s sm sm'] by simp
next
  case (Deliver ord)
  then show ?thesis
    using assms frame_handleBroadcast[of ord _ _ sm']
    by (auto split: list.splits)
next
  case (CallBroadcast d m s)
  then show ?thesis
    using assms by (auto simp: Broadcast_def send_broadcast_def split: if_splits)
next
  case (CallUpdateAwareness d c a)
  then show ?thesis
    using assms by (auto simp: UpdateAwareness_def Let_def split: option.splits)
next
  case (Receive s)
  then show ?thesis using assms by (auto simp: set_send_def)
next
  case (Active s now)
  then show ?thesis using assms by auto
qed

subsection \<open>Invariants of the reachable states\<close>

lemma stands_at_run_Cons:
  "stands_at (run (e # es) sm) sm' \<Longrightarrow>
   stands_at (step e sm) sm' \<or> (\<exists>sm1. step e sm = Done sm1 \<and> stands_at (run es sm1) sm')"
  by (cases "step e sm") auto

lemma run_invariant:
  assumes "P sm"
    and "\<And>e a b. P a \<Longrightarrow> stands_at (step e a) b \<Longrightarrow> P b"
    and "stands_at (run es sm) sm'"
  shows "P sm'"
  using assms(1,3)
proof (induction es arbitrary: sm)
  case Nil
  then show ?case by simp
next
  case (Cons e es)
  from stands_at_run_Cons[OF Cons.prems(2)] show ?case
  proof
    assume "stands_at (step e sm) sm'"
    with Cons.prems(1) show ?thesis by (rule assms(2))
  next
    assume "\<exists>sm1. step e sm = Done sm1 \<and> stands_at (run es sm1) sm'"
    then obtain sm1 where s: "step e sm = Done sm1" and r: "stands_at (run es sm1) sm'"
      by blast
    from s have "stands_at (step e sm) sm1" by simp
    with Cons.prems(1) have "P sm1" by (rule assms(2))
    then show ?thesis using r by (rule Cons.IH)
  qed
qed

lemma nonempty_rooms_step:
  assumes "nonempty_rooms sm" and "stands_at (step e sm) sm'"
  shows "nonempty_rooms sm'"
proof (cases e)
  case (Register s)
  then show ?thesis
    using assms(1) documents_step[OF assms(2)] by (simp add: nonempty_rooms_def)
next
  case (Unregister s)
  then show ?thesis
    using assms(1) documents_step[OF assms(2)] by (simp add: nonempty_rooms_def)
next
  case (Deliver ord)
  then show ?thesis
    using assms(1) documents_step[OF assms(2)] by (simp add: nonempty_rooms_def)
next
  case (CallBroadcast d m s)
  then show ?thesis
    using assms(1) documents_step[OF assms(2)] by (simp add: nonempty_rooms_def)
next
  case (CallUpdateAwareness d c a)
  then show ?thesis
    using assms(1) documents_step[OF assms(2)] by (simp add: nonempty_rooms_def)
next
  case (Receive s)
  then show ?thesis
    using assms(1) documents_step[OF assms(2)] by (simp add: nonempty_rooms_def)
next
  case (Active s now)
  then show ?thesis
    using assms(1) documents_step[OF assms(2)] by (simp add: nonempty_rooms_def)
qed

lemma room_step:
  assumes "stands_at (step e sm) sm'"
  shows "room sm' d \<subseteq> room sm d \<union>
     (case e of Register s \<Rightarrow> (if d = DocumentID (sessions sm s) then {s} else {}) | _ \<Rightarrow> {})"
proof (cases e)
  case (Register s)
  then show ?thesis
    using documents_step[OF assms] by (auto simp: room_def split: option.splits if_splits)
next
  case (Unregister s)
  then show ?thesis
    using documents_step[OF assms] by (auto simp: room_def split: option.splits if_splits)
next
  case (Deliver ord)
  then show ?thesis
    using documents_step[OF assms] by (simp add: room_def)
next
  case (CallBroadcast d m s)
  then show ?thesis
    using documents_step[OF assms] by (simp add: room_def)
next
  case (CallUpdateAwareness d c a)
  then show ?thesis
    using documents_step[OF assms] by (simp add: room_def)
next
  case (Receive s)
  then show ?thesis
    using documents_step[OF assms] by (simp add: room_def)
next
  case (Active s now)
  then show ?thesis
    using documents_step[OF assms] by (simp add: room_def)
qed

lemma keyed_step:
  assumes "keyed sm" and "stands_at (step e sm) sm'"
  shows "keyed sm'"
  unfolding keyed_def
proof (intro allI impI)
  fix d r
  assume r: "r \<in> room sm' d"
  have id: "DocumentID (sessions sm' r) = DocumentID (sessions sm r)"
    using frame_step[OF assms(2)] by (simp add: same_identity_def)
  from r room_step[OF assms(2), of d]
  have "r \<in> room sm d \<or> (\<exists>s. e = Register s \<and> d = DocumentID (sessions sm s) \<and> r = s)"
    by (cases e) (auto split: if_splits)
  then show "DocumentID (sessions sm' r) = d"
    using assms(1) id by (auto simp: keyed_def)
qed

lemma nonempty_rooms_new: "nonempty_rooms (NewSessionManager heap)"
  by (simp add: nonempty_rooms_def NewSessionManager_def)

lemma keyed_new: "keyed (NewSessionManager heap)"
  by (simp add: keyed_def NewSessionManager_def room_def)

lemma reachable_nonempty_rooms:
  "stands_at (run es (NewSessionManager heap)) sm \<Longrightarrow> nonempty_rooms sm"
  using nonempty_rooms_new nonempty_rooms_step by (rule run_invariant)

lemma reachable_keyed:
  "stands_at (run es (NewSessionManager heap)) sm \<Longrightarrow> keyed sm"
  using keyed_new keyed_step by (rule run_invariant)

lemmas demo_defs =
  NewSessionManager_def demo_heap_def new_session_def handleRegister_def
  handleUnregister_def handleBroadcast_def send_broadcast_def broadcast_cap_def send_cap_def
  room_def set_send_def remove_awareness_def try_send_def Let_def

lemma demo_room_reachable:
  "run [Register 1, Register 2, Register 3, Deliver [1], Deliver [2, 1], Deliver [1, 3, 2],
        Receive 1, Receive 1, Receive 2] (NewSessionManager demo_heap) = Done demo_room"
  apply (simp add: demo_defs demo_room_def)
  apply (auto simp: fun_eq_iff demo_heap_def new_session_def send_cap_def)
  done

subsection \<open>Rooms exist exactly while they have members\<close>

text \<open>
  C5. After every sequence of events, whether the hub is back at its \<open>select\<close> or parked
  in a handler, a document id is a key of \<open>documents\<close> if and only if its room has a
  member. \<open>handleRegister\<close> makes the entry with the new member in it, and
  \<open>handleUnregister\<close> of a member leaves the entry in place exactly when another
  member remains.
\<close>

theorem registry_key_iff_nonempty:
  assumes "stands_at (run es (NewSessionManager heap)) sm"
  shows "((d \<in> dom (documents sm)) = (room sm d \<noteq> {})) \<and>
    (\<forall>s sm'. stands_at (handleRegister s sm) sm' \<longrightarrow>
       documents sm' =
         (documents sm)(DocumentID (sessions sm s) \<mapsto>
            insert s (room sm (DocumentID (sessions sm s))))) \<and>
    (\<forall>s sm'. registered sm s \<longrightarrow> stands_at (handleUnregister s sm) sm' \<longrightarrow>
       room sm' (DocumentID (sessions sm s)) = room sm (DocumentID (sessions sm s)) - {s} \<and>
       ((DocumentID (sessions sm s) \<in> dom (documents sm')) =
          (room sm (DocumentID (sessions sm s)) - {s} \<noteq> {})))"
proof (intro conjI allI impI)
  show "(d \<in> dom (documents sm)) = (room sm d \<noteq> {})"
    using reachable_nonempty_rooms[OF assms]
    by (auto simp: nonempty_rooms_def room_def split: option.splits)
next
  fix s sm'
  assume "stands_at (handleRegister s sm) sm'"
  then show "documents sm' =
     (documents sm)(DocumentID (sessions sm s) \<mapsto>
        insert s (room sm (DocumentID (sessions sm s))))"
    by (rule documents_handleRegister)
next
  fix s sm'
  assume "registered sm s" and "stands_at (handleUnregister s sm) sm'"
  then show "room sm' (DocumentID (sessions sm s)) = room sm (DocumentID (sessions sm s)) - {s}"
    using documents_handleUnregister[of s sm sm'] by (auto simp: room_def)
next
  fix s sm'
  assume "registered sm s" and "stands_at (handleUnregister s sm) sm'"
  then show "(DocumentID (sessions sm s) \<in> dom (documents sm')) =
     (room sm (DocumentID (sessions sm s)) - {s} \<noteq> {})"
    using documents_handleUnregister[of s sm sm'] by (auto simp: room_def)
qed

theorem registry_key_iff_nonempty_witness:
  "\<exists>sm sm' sm''. run [Register 10, Register 20, Unregister 10, Deliver [20]]
           (NewSessionManager demo_heap) = Done sm \<and>
        ((''doc2'' \<in> dom (documents sm)) = (room sm ''doc2'' \<noteq> {})) \<and>
        room sm ''doc2'' = {20} \<and> ''doc1'' \<notin> dom (documents sm) \<and>
        handleRegister 1 sm = Done sm'' \<and> documents sm'' = (documents sm)(''doc1'' \<mapsto> {1}) \<and>
        registered sm 20 \<and>
        handleUnregister 20 sm = Done sm' \<and> ''doc2'' \<notin> dom (documents sm')"
proof -
  have "\<exists>sm. run [Register 10, Register 20, Unregister 10, Deliver [20]]
           (NewSessionManager demo_heap) = Done sm \<and> room sm ''doc2'' = {20} \<and>
           room sm ''doc1'' = {} \<and>
           registered sm 20 \<and> (\<exists>sm'. handleUnregister 20 sm = Done sm') \<and>
           (\<exists>sm''. handleRegister 1 sm = Done sm'') \<and>
           DocumentID (sessions sm 20) = ''doc2'' \<and> DocumentID (sessions sm 1) = ''doc1''"
    by (simp add: demo_defs registered_def) auto
  then obtain sm sm' sm'' where r: "run [Register 10, Register 20, Unregister 10, Deliver [20]]
           (NewSessionManager demo_heap) = Done sm" and e: "room sm ''doc2'' = {20}"
     and e1: "room sm ''doc1'' = {}"
     and g: "registered sm 20" and u: "handleUnregister 20 sm = Done sm'"
     and h: "handleRegister 1 sm = Done sm''"
     and d: "DocumentID (sessions sm 20) = ''doc2''" "DocumentID (sessions sm 1) = ''doc1''"
    by blast
  from r have s: "stands_at (run [Register 10, Register 20, Unregister 10, Deliver [20]]
           (NewSessionManager demo_heap)) sm" by simp
  note t = registry_key_iff_nonempty[OF s]
  have 1: "(''doc2'' \<in> dom (documents sm)) = (room sm ''doc2'' \<noteq> {})"
    and 2: "(''doc1'' \<in> dom (documents sm)) = (room sm ''doc1'' \<noteq> {})"
    using t[of "''doc2''"] t[of "''doc1''"] by simp_all
  have 3: "documents sm'' = (documents sm)(''doc1'' \<mapsto> {1})"
    using t[of "''doc1''", THEN conjunct2, THEN conjunct1, rule_format, of 1 sm''] h d e1
    by simp
  have 4: "''doc2'' \<notin> dom (documents sm')"
    using t[of "''doc1''", THEN conjunct2, THEN conjunct2, rule_format, of 20 sm'] g u d e
    by simp
  show ?thesis using r 1 2 3 4 e e1 g u h by auto
qed

subsection \<open>Unregistering\<close>

lemma handleUnregister_absent:
  "\<not> registered sm s \<Longrightarrow> handleUnregister s sm = Done sm"
  by (auto simp: handleUnregister_def Let_def registered_def room_def split: option.splits)

text \<open>
  C3. \<open>handleUnregister\<close> is idempotent. On a session that is not registered it returns
  the state it was given. The first call returns unless the session is a member and its
  channel is already closed or the hub's broadcast buffer is full; and once a call has
  returned, the session is not registered and a second call on it returns the very same
  state: nothing is removed, no channel is closed and no leave message is queued.
\<close>

theorem handleUnregister_idempotent:
  "(\<not> registered sm s \<longrightarrow> handleUnregister s sm = Done sm) \<and>
   (length (broadcast sm) < broadcast_cap \<and> \<not> ch_closed (Send (sessions sm s)) \<longrightarrow>
      (\<exists>sm1. handleUnregister s sm = Done sm1)) \<and>
   (\<forall>sm1. handleUnregister s sm = Done sm1 \<longrightarrow>
      \<not> registered sm1 s \<and> handleUnregister s sm1 = Done sm1)"
proof (intro conjI impI allI)
  assume "\<not> registered sm s"
  then show "handleUnregister s sm = Done sm" by (rule handleUnregister_absent)
next
  assume "length (broadcast sm) < broadcast_cap \<and> \<not> ch_closed (Send (sessions sm s))"
  then show "\<exists>sm1. handleUnregister s sm = Done sm1"
    by (auto simp: handleUnregister_def send_broadcast_def set_send_def remove_awareness_def
        Let_def split: option.splits)
next
  fix sm1
  assume d: "handleUnregister s sm = Done sm1"
  then have st: "stands_at (handleUnregister s sm) sm1" by simp
  have id: "DocumentID (sessions sm1 s) = DocumentID (sessions sm s)"
    using frame_handleUnregister[OF st] by (simp add: same_identity_def)
  show gone: "\<not> registered sm1 s"
  proof (cases "registered sm s")
    case True
    then show ?thesis
      using documents_handleUnregister[OF st] by (auto simp: registered_def id room_def)
  next
    case False
    then have "sm1 = sm" using d handleUnregister_absent[of sm s] by simp
    then show ?thesis using False by simp
  qed
  then show "handleUnregister s sm1 = Done sm1" by (rule handleUnregister_absent)
qed

theorem handleUnregister_idempotent_witness:
  "\<exists>sm1. handleUnregister 1 demo_room = Done sm1 \<and> handleUnregister 1 sm1 = Done sm1 \<and>
     ch_closed (Send (sessions sm1 1)) \<and>
     broadcast sm1 =
       [\<lparr>msg_DocumentID = ''doc1'', Message = Leave ''alice'' ''Alice'', Sender = None\<rparr>]"
proof -
  have "\<exists>sm1. handleUnregister 1 demo_room = Done sm1 \<and> ch_closed (Send (sessions sm1 1)) \<and>
     broadcast sm1 =
       [\<lparr>msg_DocumentID = ''doc1'', Message = Leave ''alice'' ''Alice'', Sender = None\<rparr>]"
    by (simp add: demo_defs demo_room_def)
  then show ?thesis
    using handleUnregister_idempotent[of demo_room 1] by blast
qed

text \<open>
  C4. In every reachable state, once \<open>handleUnregister\<close> has dealt with a registered
  session, the session is a member of no room, and the map that \<open>GetAwareness\<close> returns
  for its document has no entry under its client id.
\<close>

theorem unregister_removes_session:
  assumes "stands_at (run es (NewSessionManager heap)) sm"
    and "registered sm s"
    and "stands_at (handleUnregister s sm) sm'"
  shows "(\<forall>d. s \<notin> room sm' d) \<and>
         (case GetAwareness (DocumentID (sessions sm s)) sm' of
            None \<Rightarrow> True
          | Some m \<Rightarrow> aware_maps sm' m (ClientID (sessions sm s)) = None)"
proof -
  have k: "keyed sm" using assms(1) by (rule reachable_keyed)
  have "s \<notin> room sm' d" for d
  proof (cases "d = DocumentID (sessions sm s)")
    case True
    then show ?thesis
      using documents_handleUnregister[OF assms(3)] assms(2) by (auto simp: room_def)
  next
    case False
    then have "s \<notin> room sm d" using k by (auto simp: keyed_def)
    then show ?thesis
      using documents_handleUnregister[OF assms(3)] False
      by (auto simp: room_def split: if_splits)
  qed
  then show ?thesis
    using awareness_handleUnregister[OF assms(2,3)] by (auto split: option.splits)
qed

theorem unregister_removes_session_witness:
  "\<exists>sm sm'. run [Register 1, Register 2, CallUpdateAwareness ''doc1'' 1 100,
                CallUpdateAwareness ''doc1'' 2 200] (NewSessionManager demo_heap) = Done sm \<and>
     registered sm 1 \<and> handleUnregister 1 sm = Done sm' \<and>
     (\<forall>d. 1 \<notin> room sm' d) \<and> room sm' ''doc1'' = {2} \<and>
     GetAwareness ''doc1'' sm' = Some 0 \<and> aware_maps sm' 0 1 = None \<and>
     aware_maps sm' 0 2 = Some 200 \<and> aware_maps sm 0 1 = Some 100"
proof -
  have "\<exists>sm sm'. run [Register 1, Register 2, CallUpdateAwareness ''doc1'' 1 100,
                CallUpdateAwareness ''doc1'' 2 200] (NewSessionManager demo_heap) = Done sm \<and>
     registered sm 1 \<and> handleUnregister 1 sm = Done sm' \<and> room sm' ''doc1'' = {2} \<and>
     GetAwareness ''doc1'' sm' = Some 0 \<and> aware_maps sm' 0 1 = None \<and>
     aware_maps sm' 0 2 = Some 200 \<and> aware_maps sm 0 1 = Some 100"
    by (simp add: demo_defs registered_def UpdateAwareness_def GetAwareness_def) auto
  then obtain sm sm' where
    r: "run [Register 1, Register 2, CallUpdateAwareness ''doc1'' 1 100,
                CallUpdateAwareness ''doc1'' 2 200] (NewSessionManager demo_heap) = Done sm"
    and g: "registered sm 1" and u: "handleUnregister 1 sm = Done sm'"
    and rest: "room sm' ''doc1'' = {2}" "GetAwareness ''doc1'' sm' = Some 0"
      "aware_maps sm' 0 1 = None" "aware_maps sm' 0 2 = Some 200" "aware_maps sm 0 1 = Some 100"
    by blast
  have "\<forall>d. 1 \<notin> room sm' d"
    using unregister_removes_session[of _ demo_heap sm 1 sm'] r g u
    by (metis stands_at_Done)
  then show ?thesis using r g u rest by blast
qed

subsection \<open>Broadcast\<close>

lemma broadcast_loop_sessions:
  assumes "stands_at (broadcast_loop msg ord sm) sm'" and "distinct ord"
  shows "sessions sm' r = sessions sm r \<or>
         (r \<in> set ord \<and> Sender msg \<noteq> Some r \<and> has_room sm r \<and>
          sessions sm' r = push (Message msg) (sessions sm r))"
  using assms
proof (induction msg ord sm rule: broadcast_loop.induct)
  case (1 msg sm)
  then show ?case by simp
next
  case (2 msg session rest sm)
  show ?case
  proof (cases "Sender msg = Some session")
    case True
    then show ?thesis using 2 by auto
  next
    case False
    show ?thesis
    proof (cases "try_send (Message msg) (Send (sessions sm session))")
      case (Sent ch)
      then have ch: "ch = (Send (sessions sm session))\<lparr>ch_buf := ch_buf (Send (sessions sm session)) @ [Message msg]\<rparr>"
        and hr: "has_room sm session"
        by (auto simp: try_send_def has_room_def split: if_splits)
      from 2(2)[OF False Sent] 2(3,4) False Sent
      have ih: "sessions sm' r = sessions (set_send session ch sm) r \<or>
         (r \<in> set rest \<and> Sender msg \<noteq> Some r \<and> has_room (set_send session ch sm) r \<and>
          sessions sm' r = push (Message msg) (sessions (set_send session ch sm) r))"
        by simp
      show ?thesis
      proof (cases "r = session")
        case True
        then have "r \<notin> set rest" using 2(4) by simp
        with ih True have "sessions sm' r = sessions (set_send session ch sm) r" by blast
        then show ?thesis using True False hr ch by (simp add: set_send_def push_def)
      next
        case False
        then show ?thesis using ih by (auto simp: set_send_def has_room_def)
      qed
    next
      case Full
      then show ?thesis using 2(3) False by simp
    next
      case Closed
      then show ?thesis using 2(3) False by simp
    qed
  qed
qed

lemma broadcast_loop_done:
  assumes "distinct ord" and "\<forall>r \<in> set ord. Sender msg \<noteq> Some r \<longrightarrow> has_room sm r"
  shows "\<exists>sm'. broadcast_loop msg ord sm = Done sm' \<and>
     (\<forall>r. sessions sm' r =
        (if r \<in> set ord \<and> Sender msg \<noteq> Some r then push (Message msg) (sessions sm r)
         else sessions sm r))"
  using assms
proof (induction ord arbitrary: sm)
  case Nil
  then show ?case by simp
next
  case (Cons session rest)
  show ?case
  proof (cases "Sender msg = Some session")
    case True
    with Cons.prems have "\<forall>r \<in> set rest. Sender msg \<noteq> Some r \<longrightarrow> has_room sm r" and "distinct rest"
      by auto
    from Cons.IH[OF this(2) this(1)] True show ?thesis by auto
  next
    case False
    with Cons.prems have hr: "has_room sm session" by simp
    define ch where "ch = (Send (sessions sm session))\<lparr>ch_buf := ch_buf (Send (sessions sm session)) @ [Message msg]\<rparr>"
    have ts: "try_send (Message msg) (Send (sessions sm session)) = Sent ch"
      using hr by (simp add: try_send_def has_room_def ch_def)
    have "\<forall>r \<in> set rest. Sender msg \<noteq> Some r \<longrightarrow> has_room (set_send session ch sm) r"
      using Cons.prems by (auto simp: has_room_def set_send_def)
    moreover have "distinct rest" using Cons.prems by simp
    ultimately obtain sm' where d: "broadcast_loop msg rest (set_send session ch sm) = Done sm'"
      and q: "\<forall>r. sessions sm' r =
        (if r \<in> set rest \<and> Sender msg \<noteq> Some r
         then push (Message msg) (sessions (set_send session ch sm) r)
         else sessions (set_send session ch sm) r)"
      using Cons.IH[of "set_send session ch sm"] by blast
    have "broadcast_loop msg (session # rest) sm = Done sm'"
      using False ts d by simp
    moreover have "\<forall>r. sessions sm' r =
        (if r \<in> set (session # rest) \<and> Sender msg \<noteq> Some r then push (Message msg) (sessions sm r)
         else sessions sm r)"
      using q False Cons.prems(1) by (auto simp: set_send_def push_def ch_def)
    ultimately show ?thesis by blast
  qed
qed

lemma broadcast_loop_full:
  assumes "r \<in> set ord" and "Sender msg \<noteq> Some r" and "\<not> has_room sm r"
  shows "broadcast_loop msg ord sm \<noteq> Done sm'"
  using assms
proof (induction msg ord sm rule: broadcast_loop.induct)
  case (1 msg sm)
  then show ?case by simp
next
  case (2 msg session rest sm)
  show ?case
  proof (cases "Sender msg = Some session")
    case True
    then show ?thesis using 2 by auto
  next
    case False
    show ?thesis
    proof (cases "try_send (Message msg) (Send (sessions sm session))")
      case (Sent ch)
      then have hs: "has_room sm session" by (auto simp: try_send_def has_room_def split: if_splits)
      then have ne: "r \<noteq> session" using 2(5) by auto
      then have "r \<in> set rest" using 2(3) by simp
      moreover have "\<not> has_room (set_send session ch sm) r"
        using 2(5) ne by (simp add: has_room_def set_send_def)
      ultimately show ?thesis using 2(2)[OF False Sent] 2(4) False Sent by simp
    next
      case Full
      then show ?thesis using False by simp
    next
      case Closed
      then show ?thesis using False by simp
    qed
  qed
qed


text \<open>The room with the member that does not read is reached by events of the program.\<close>

lemma run_append:
  "run (es @ fs) sm =
     (case run es sm of Done sm' \<Rightarrow> run fs sm' | Blocked sm' \<Rightarrow> Blocked sm' | Panic \<Rightarrow> Panic)"
  by (induction es arbitrary: sm) (auto split: outcome.splits)

lemma backlog_0: "backlog 0 = demo_room"
  by (auto simp: backlog_def demo_room_def demo_heap_def new_session_def fun_eq_iff)

lemma backlog_full: "backlog 256 = stalled_room"
  by (simp add: backlog_def stalled_room_def saturated_def demo_heap_def new_session_def send_cap_def)

lemma backlog_step: "k < 256 \<Longrightarrow> run one_more (backlog k) = Done (backlog (Suc k))"
  apply (simp add: one_more_def backlog_def demo_room_def Broadcast_def send_broadcast_def
      broadcast_cap_def handleBroadcast_def room_def try_send_def set_send_def demo_heap_def
      new_session_def send_cap_def)
  apply (auto simp: fun_eq_iff replicate_append_same demo_heap_def new_session_def send_cap_def)
  done

lemma backlog_run: "k \<le> 256 \<Longrightarrow> run (concat (replicate k one_more)) (backlog 0) = Done (backlog k)"
proof (induction k)
  case 0
  then show ?case by simp
next
  case (Suc k)
  then have "run (concat (replicate k one_more)) (backlog 0) = Done (backlog k)" by simp
  moreover have "concat (replicate (Suc k) one_more) = concat (replicate k one_more) @ one_more"
    by (metis append_Nil2 concat.simps(1) concat.simps(2) concat_append replicate_Suc replicate_append_same)
  ultimately show ?case using backlog_step[of k] Suc.prems by (simp add: run_append)
qed

lemma stalled_room_reachable:
  "run ([Register 1, Register 2, Register 3, Deliver [1], Deliver [2, 1], Deliver [1, 3, 2],
         Receive 1, Receive 1, Receive 2] @ concat (replicate 256 one_more))
       (NewSessionManager demo_heap) = Done stalled_room"
  using backlog_run[of 256] demo_room_reachable
  by (simp only: run_append backlog_0 backlog_full outcome.case)


text \<open>
  C1, as the code has it. \<open>handleBroadcast\<close> touches no session but the members of the
  message's room other than its sender: every session is left as it was, or it is such
  a member, had room, and got the payload as the last frame of its buffer. When every
  such member has room (an open channel whose buffer is not full), the call returns and
  exactly those members have got the payload.
\<close>

theorem broadcast_reaches_room_except_sender:
  assumes "range_order ord (room sm (msg_DocumentID msg))"
  shows "(\<forall>sm' r. stands_at (handleBroadcast ord msg sm) sm' \<longrightarrow>
            sessions sm' r = sessions sm r \<or>
            (r \<in> recipients sm msg \<and> has_room sm r \<and>
             sessions sm' r = push (Message msg) (sessions sm r))) \<and>
         ((\<forall>r \<in> recipients sm msg. has_room sm r) \<longrightarrow>
            (\<exists>sm'. handleBroadcast ord msg sm = Done sm' \<and>
               (\<forall>r. sessions sm' r =
                  (if r \<in> recipients sm msg then push (Message msg) (sessions sm r)
                   else sessions sm r))))"
proof (intro conjI allI impI)
  fix sm' r
  assume "stands_at (handleBroadcast ord msg sm) sm'"
  then have "stands_at (broadcast_loop msg ord sm) sm'"
    using assms by (simp add: handleBroadcast_range_order)
  from broadcast_loop_sessions[OF this, of r] assms
  show "sessions sm' r = sessions sm r \<or>
            (r \<in> recipients sm msg \<and> has_room sm r \<and>
             sessions sm' r = push (Message msg) (sessions sm r))"
    by (auto simp: range_order_def recipients_def)
next
  assume "\<forall>r \<in> recipients sm msg. has_room sm r"
  then have "\<forall>r \<in> set ord. Sender msg \<noteq> Some r \<longrightarrow> has_room sm r"
    using assms by (auto simp: range_order_def recipients_def)
  moreover have "distinct ord" using assms by (simp add: range_order_def)
  ultimately obtain sm' where "broadcast_loop msg ord sm = Done sm'"
    and "\<forall>r. sessions sm' r =
        (if r \<in> set ord \<and> Sender msg \<noteq> Some r then push (Message msg) (sessions sm r)
         else sessions sm r)"
    using broadcast_loop_done[of ord msg sm] by blast
  then show "\<exists>sm'. handleBroadcast ord msg sm = Done sm' \<and>
               (\<forall>r. sessions sm' r =
                  (if r \<in> recipients sm msg then push (Message msg) (sessions sm r)
                   else sessions sm r))"
    using assms by (auto simp: handleBroadcast_range_order range_order_def recipients_def)
qed

theorem broadcast_reaches_room_except_sender_witness:
  "range_order [3, 1, 2] (room demo_room ''doc1'') \<and>
   recipients demo_room \<lparr>msg_DocumentID = ''doc1'', Message = Raw [1, 2], Sender = Some 1\<rparr> = {2, 3} \<and>
   has_room demo_room 2 \<and> has_room demo_room 3 \<and>
   (\<exists>sm'. handleBroadcast [3, 1, 2]
            \<lparr>msg_DocumentID = ''doc1'', Message = Raw [1, 2], Sender = Some 1\<rparr> demo_room = Done sm' \<and>
      queue sm' 1 = [] \<and> queue sm' 2 = [Raw [1, 2]] \<and> queue sm' 3 = [Raw [1, 2]] \<and>
      queue sm' 4 = [])"
proof -
  have a: "range_order [3, 1, 2] (room demo_room ''doc1'')"
    by (auto simp: range_order_def room_def demo_room_def)
  have b: "recipients demo_room
      \<lparr>msg_DocumentID = ''doc1'', Message = Raw [1, 2], Sender = Some 1\<rparr> = {2, 3}"
    by (auto simp: recipients_def room_def demo_room_def)
  have c: "has_room demo_room 2" "has_room demo_room 3"
    by (simp_all add: has_room_def demo_room_def demo_heap_def new_session_def send_cap_def)
  have d: "queue demo_room r = []" for r
    by (simp add: queue_def demo_room_def demo_heap_def new_session_def)
  from broadcast_reaches_room_except_sender[of "[3, 1, 2]" demo_room
      "\<lparr>msg_DocumentID = ''doc1'', Message = Raw [1, 2], Sender = Some 1\<rparr>"] a b c
  obtain sm' where "handleBroadcast [3, 1, 2]
            \<lparr>msg_DocumentID = ''doc1'', Message = Raw [1, 2], Sender = Some 1\<rparr> demo_room = Done sm'"
    and "\<forall>r. sessions sm' r = (if r \<in> {2, 3} then push (Raw [1, 2]) (sessions demo_room r)
                   else sessions demo_room r)"
    by auto
  then show ?thesis using a b c d[of 1] d[of 2] d[of 3] d[of 4]
    by (auto simp: queue_def push_def)
qed

text \<open>
  C1 as stated fails where a member's buffer is full: session 2 is in the room and is
  not the sender, session 3 gets the payload, session 2 does not.
\<close>

theorem broadcast_misses_full_member:
  "range_order [3, 2, 1] (room stalled_room ''doc1'') \<and>
   2 \<in> room stalled_room ''doc1'' - {1} \<and>
   handleBroadcast [3, 2, 1]
      \<lparr>msg_DocumentID = ''doc1'', Message = Raw [1, 2], Sender = Some 1\<rparr> stalled_room =
     Blocked (set_send 3 ((Send (demo_heap 3))\<lparr>ch_buf := [Raw [1, 2]]\<rparr>) stalled_room) \<and>
   queue (set_send 3 ((Send (demo_heap 3))\<lparr>ch_buf := [Raw [1, 2]]\<rparr>) stalled_room) 2 =
     replicate 256 (Raw [])"
  by (auto simp: stalled_room_def demo_room_def room_def handleBroadcast_def try_send_def
      set_send_def saturated_def demo_heap_def new_session_def send_cap_def queue_def
      range_order_def)

text \<open>
  C2. With the full buffer of session 2 the call does not return. The hub is parked at
  \<open>sm.unregister <- session\<close> in the state it started from: session 3, visited after
  session 2, has not got the payload, and session 2 is still a member. Whatever the
  order of the range, a member without room keeps \<open>handleBroadcast\<close> from returning.
\<close>

theorem broadcast_parks_hub_on_full_member:
  "range_order [1, 2, 3] (room stalled_room ''doc1'') \<and>
   handleBroadcast [1, 2, 3]
      \<lparr>msg_DocumentID = ''doc1'', Message = Raw [1, 2], Sender = Some 1\<rparr> stalled_room =
     Blocked stalled_room \<and>
   registered stalled_room 2 \<and> queue stalled_room 3 = []"
  by (auto simp: stalled_room_def demo_room_def room_def handleBroadcast_def try_send_def
      set_send_def saturated_def demo_heap_def new_session_def send_cap_def queue_def
      range_order_def registered_def)

lemma handleBroadcast_never_returns_on_full_member:
  assumes "range_order ord (room sm (msg_DocumentID msg))"
    and "r \<in> recipients sm msg" and "\<not> has_room sm r"
  shows "handleBroadcast ord msg sm \<noteq> Done sm'"
  using broadcast_loop_full[of r ord msg sm sm'] assms
  by (auto simp: handleBroadcast_range_order range_order_def recipients_def)

subsection \<open>Awareness\<close>

text \<open>
  C6. \<open>GetAwareness\<close> returns the inner map of the store itself. The map it returns
  for \<open>doc1\<close> after a first update is the one at address 0, which has no entry for
  client 2; after a later \<open>UpdateAwareness\<close> the same map, read through the reference
  that was returned before, has one. The value returned is not a snapshot.
\<close>

theorem GetAwareness_returns_live_map:
  "GetAwareness ''doc1'' (UpdateAwareness ''doc1'' 1 100 (NewSessionManager demo_heap)) = Some 0 \<and>
   aware_maps (UpdateAwareness ''doc1'' 1 100 (NewSessionManager demo_heap)) 0 2 = None \<and>
   aware_maps (UpdateAwareness ''doc1'' 2 200
      (UpdateAwareness ''doc1'' 1 100 (NewSessionManager demo_heap))) 0 2 = Some 200"
  by (simp add: GetAwareness_def UpdateAwareness_def NewSessionManager_def)

text \<open>
  In general the reference returned stays the store's own map: an \<open>UpdateAwareness\<close>
  shows through it, and a caller's assignment through it changes what the store holds.
\<close>

lemma GetAwareness_alias:
  assumes "GetAwareness d sm = Some m"
  shows "GetAwareness d (UpdateAwareness d c a sm) = Some m \<and>
         aware_maps (UpdateAwareness d c a sm) m = (aware_maps sm m)(c \<mapsto> a) \<and>
         GetAwareness d (caller_store m c a sm) = Some m \<and>
         aware_maps (caller_store m c a sm) m c = Some a"
  using assms by (simp add: GetAwareness_def UpdateAwareness_def caller_store_def)


subsection \<open>The sweeper\<close>

lemma cleanup_sessions_AtLock:
  "cleanup_sessions now heap members (AtLock w) =
     (if \<exists>r \<in> set members. stale now heap r then Blocked (AtLock w) else Done (AtLock w))"
  by (induction members) (auto simp: stale_def send_unregister_def)

lemma cleanup_sessions_AtSelect:
  "cleanup_sessions now heap members AtSelect =
     (case filter (stale now heap) members of
        [] \<Rightarrow> Done AtSelect
      | [r] \<Rightarrow> Done (AtLock r)
      | r # r' # rs \<Rightarrow> Blocked (AtLock r))"
proof (induction members)
  case Nil
  then show ?case by simp
next
  case (Cons a members)
  show ?case
  proof (cases "stale now heap a")
    case True
    then show ?thesis
      by (auto simp: stale_def[symmetric] send_unregister_def cleanup_sessions_AtLock
          filter_empty_conv split: list.splits)
  next
    case False
    then show ?thesis using Cons by (simp add: stale_def)
  qed
qed

lemma cleanup_sessions_not_Panic: "cleanup_sessions now heap members pc \<noteq> Panic"
  by (induction members arbitrary: pc)
     (auto simp: send_unregister_def split: hub_pc.splits outcome.splits)

lemma cleanup_AtLock:
  "\<exists>sm'. sessions sm' = sessions sm \<and>
     cleanup now ord (AtLock w, sm) =
       (if \<exists>r \<in> set (concat (map snd ord)). stale now (sessions sm) r
        then Blocked (AtLock w, sm') else Done (AtLock w, sm'))"
proof (induction ord arbitrary: sm)
  case Nil
  then show ?case by simp
next
  case (Cons a ord)
  obtain d members where a: "a = (d, members)" by (cases a)
  show ?case
  proof (cases "\<exists>r \<in> set members. stale now (sessions sm) r")
    case True
    then show ?thesis by (auto simp: a cleanup_sessions_AtLock)
  next
    case False
    define sm1 where "sm1 = (if members = [] then sm\<lparr>documents := (documents sm)(d := None)\<rparr> else sm)"
    have s1: "sessions sm1 = sessions sm" by (simp add: sm1_def)
    from Cons[of sm1] obtain sm' where "sessions sm' = sessions sm1"
      and "cleanup now ord (AtLock w, sm1) =
       (if \<exists>r \<in> set (concat (map snd ord)). stale now (sessions sm1) r
        then Blocked (AtLock w, sm') else Done (AtLock w, sm'))" by blast
    then show ?thesis using False s1
      by (auto simp: a cleanup_sessions_AtLock sm1_def)
  qed
qed

lemma cleanup_AtSelect:
  "(\<exists>st. cleanup now ord (AtSelect, sm) = Done st) \<longleftrightarrow>
   length (filter (stale now (sessions sm)) (concat (map snd ord))) \<le> 1"
proof (induction ord arbitrary: sm)
  case Nil
  then show ?case by simp
next
  case (Cons a ord)
  obtain d members where a: "a = (d, members)" by (cases a)
  define sm1 where "sm1 = (if members = [] then sm\<lparr>documents := (documents sm)(d := None)\<rparr> else sm)"
  have s1: "sessions sm1 = sessions sm" by (simp add: sm1_def)
  consider (none) "filter (stale now (sessions sm)) members = []"
    | (one) r where "filter (stale now (sessions sm)) members = [r]"
    | (more) r r' rs where "filter (stale now (sessions sm)) members = r # r' # rs"
    by (cases "filter (stale now (sessions sm)) members" rule: list.exhaust)
       (auto intro: list.exhaust)
  then show ?case
  proof cases
    case none
    then have "cleanup now (a # ord) (AtSelect, sm) = cleanup now ord (AtSelect, sm1)"
      by (simp add: a cleanup_sessions_AtSelect sm1_def)
    then show ?thesis
      using Cons[of sm1] s1 none by (simp add: a)
  next
    case one
    then have c: "cleanup now (a # ord) (AtSelect, sm) = cleanup now ord (AtLock r, sm1)"
      by (simp add: a cleanup_sessions_AtSelect sm1_def)
    from cleanup_AtLock[of sm1 now ord r] s1 obtain sm' where
      "cleanup now ord (AtLock r, sm1) =
       (if \<exists>r \<in> set (concat (map snd ord)). stale now (sessions sm) r
        then Blocked (AtLock r, sm') else Done (AtLock r, sm'))" by auto
    then show ?thesis
      using one c by (auto simp: a filter_empty_conv)
  next
    case more
    then show ?thesis by (simp add: a cleanup_sessions_AtSelect)
  qed
qed

lemma aged_room_order: "cleanup_order [(''doc1'', [1, 2, 3])] aged_room"
  by (auto simp: cleanup_order_def range_order_def aged_room_def demo_room_def room_def)

lemma aged_room_reachable:
  "run [Register 1, Register 2, Register 3, Deliver [1], Deliver [2, 1], Deliver [1, 3, 2],
        Receive 1, Receive 1, Receive 2, Active 2 1700000100000000000,
        Active 3 1700000300000000000] (NewSessionManager demo_heap) = Done aged_room"
  apply (simp add: demo_defs demo_room_def aged_room_def)
  apply (auto simp: fun_eq_iff demo_heap_def new_session_def send_cap_def)
  done

text \<open>
  C8. At a sweep 401 seconds after the start sessions 1 and 2 are both stale. \<open>cleanup\<close>
  hands session 1 to the hub, which then waits for \<open>sm.mu\<close>, and is parked at the second
  \<open>sm.unregister <- session\<close> with the lock held: the sweep does not complete, no session
  has left the room and no leave message has been queued.
\<close>

theorem cleanup_parks_on_second_stale_session:
  "stale 1700000401000000000 (sessions aged_room) 1 \<and>
   stale 1700000401000000000 (sessions aged_room) 2 \<and>
   \<not> stale 1700000401000000000 (sessions aged_room) 3 \<and>
   cleanup 1700000401000000000 [(''doc1'', [1, 2, 3])] (AtSelect, aged_room) =
     Blocked (AtLock 1, aged_room) \<and>
   room aged_room ''doc1'' = {1, 2, 3} \<and> broadcast aged_room = []"
  by (simp add: aged_room_def demo_room_def demo_heap_def new_session_def timeout_def
      send_unregister_def room_def stale_def)

text \<open>
  A sweep returns exactly when at most one of the sessions it visits is stale. With one
  stale session (the same room 100 seconds earlier) the hub goes on to unregister it,
  and the leave message reaches the two members that remain.
\<close>

lemma cleanup_returns_iff_at_most_one_stale:
  "(\<exists>st. cleanup now ord (AtSelect, sm) = Done st) \<longleftrightarrow>
   length (filter (stale now (sessions sm)) (concat (map snd ord))) \<le> 1"
  by (rule cleanup_AtSelect)

lemma cleanup_single_stale_session:
  "cleanup 1700000301000000000 [(''doc1'', [1, 2, 3])] (AtSelect, aged_room) =
     Done (AtLock 1, aged_room) \<and>
   (\<exists>sm1 sm2. hub_resume (AtLock 1, aged_room) = Done sm1 \<and> room sm1 ''doc1'' = {2, 3} \<and>
      step (Deliver [2, 3]) sm1 = Done sm2 \<and>
      queue sm2 2 = [Leave ''alice'' ''Alice''] \<and> queue sm2 3 = [Leave ''alice'' ''Alice''])"
  by (simp add: aged_room_def demo_room_def demo_heap_def new_session_def timeout_def
      send_unregister_def room_def hub_resume_def handleUnregister_def set_send_def
      remove_awareness_def send_broadcast_def broadcast_cap_def handleBroadcast_def
      try_send_def queue_def send_cap_def Let_def)

subsection \<open>The initial state sent to a new session\<close>

text \<open>
  No event reads the repository, so the sample states are reached just as well when
  the repository has been attached before the hub is started, as \<open>main\<close> does it.
\<close>

lemma broadcast_loop_SetYjsRepository:
  "broadcast_loop msg ord (SetYjsRepository r sm) =
     (case broadcast_loop msg ord sm of
        Done s \<Rightarrow> Done (SetYjsRepository r s)
      | Blocked s \<Rightarrow> Blocked (SetYjsRepository r s)
      | Panic \<Rightarrow> Panic)"
proof (induction msg ord sm rule: broadcast_loop.induct)
  case (1 msg sm)
  then show ?case by simp
next
  case (2 msg session rest sm)
  have s: "sessions (SetYjsRepository r sm) = sessions sm"
    "set_send session ch (SetYjsRepository r sm) = SetYjsRepository r (set_send session ch sm)"
    for ch
    by (simp_all add: SetYjsRepository_def set_send_def)
  show ?case
  proof (cases "Sender msg = Some session")
    case True
    then show ?thesis using 2(1) by simp
  next
    case False
    then show ?thesis
      using 2(2) by (cases "try_send (Message msg) (Send (sessions sm session))") (simp_all add: s)
  qed
qed

lemma step_SetYjsRepository:
  "step e (SetYjsRepository r sm) =
     (case step e sm of
        Done s \<Rightarrow> Done (SetYjsRepository r s)
      | Blocked s \<Rightarrow> Blocked (SetYjsRepository r s)
      | Panic \<Rightarrow> Panic)"
proof (cases e)
  case (Register s)
  then show ?thesis
    by (simp add: handleRegister_def send_broadcast_def SetYjsRepository_def room_def Let_def)
next
  case (Unregister s)
  then show ?thesis
    by (simp add: handleUnregister_def send_broadcast_def SetYjsRepository_def set_send_def
        remove_awareness_def Let_def split: option.splits)
next
  case (Deliver ord)
  have "room (SetYjsRepository r sm\<lparr>broadcast := pending\<rparr>) d = room (sm\<lparr>broadcast := pending\<rparr>) d"
    "SetYjsRepository r sm\<lparr>broadcast := pending\<rparr> = SetYjsRepository r (sm\<lparr>broadcast := pending\<rparr>)"
    for pending d
    by (simp_all add: SetYjsRepository_def room_def)
  then show ?thesis
    using Deliver
    by (simp add: handleBroadcast_def broadcast_loop_SetYjsRepository split: list.splits)
       (simp add: SetYjsRepository_def)
next
  case (CallBroadcast d m s)
  then show ?thesis
    by (simp add: Broadcast_def send_broadcast_def SetYjsRepository_def)
next
  case (CallUpdateAwareness d c a)
  then show ?thesis
    by (simp add: UpdateAwareness_def SetYjsRepository_def Let_def split: option.splits)
next
  case (Receive s)
  then show ?thesis by (simp add: SetYjsRepository_def set_send_def)
next
  case (Active s now)
  then show ?thesis by (simp add: SetYjsRepository_def)
qed

lemma run_SetYjsRepository:
  "run es sm = Done sm' \<Longrightarrow> run es (SetYjsRepository r sm) = Done (SetYjsRepository r sm')"
proof (induction es arbitrary: sm)
  case Nil
  then show ?case by simp
next
  case (Cons e es)
  then show ?case
    by (cases "step e sm") (simp_all add: step_SetYjsRepository)
qed

lemma logged_room_reachable:
  "run [Register 1, Register 2, Register 3, Deliver [1], Deliver [2, 1], Deliver [1, 3, 2],
        Receive 1, Receive 1, Receive 2] (SetYjsRepository demo_log (NewSessionManager demo_heap)) =
     Done logged_room"
  unfolding logged_room_def by (rule run_SetYjsRepository[OF demo_room_reachable])

lemma logged_stalled_room_reachable:
  "run ([Register 1, Register 2, Register 3, Deliver [1], Deliver [2, 1], Deliver [1, 3, 2],
         Receive 1, Receive 1, Receive 2] @ concat (replicate 256 one_more))
       (SetYjsRepository demo_log (NewSessionManager demo_heap)) = Done logged_stalled_room"
  unfolding logged_stalled_room_def by (rule run_SetYjsRepository[OF stalled_room_reachable])

lemma lively_room_reachable:
  "run ([Register 1, Register 2, Register 3, Deliver [1], Deliver [2, 1], Deliver [1, 3, 2],
         Receive 1, Receive 1, Receive 2] @ [CallUpdateAwareness ''doc1'' 1 100])
       (SetYjsRepository long_log (NewSessionManager demo_heap)) = Done lively_room"
  unfolding run_append run_SetYjsRepository[OF demo_room_reachable, of long_log]
  by (simp add: lively_room_def)

text \<open>The log of 300 updates is what 300 calls of \<open>StoreUpdate\<close> leave, a nanosecond apart.\<close>

lemma long_log_stored:
  "fold (\<lambda>i r. case StoreUpdate ''doc1'' [1] 1 (1700000000000000000 + int i) r of
                  Inl e \<Rightarrow> r | Inr r' \<Rightarrow> r')
     [0..<300] \<lparr>rows = [], available = True\<rparr> = long_log"
proof -
  have "fold (\<lambda>i r. case StoreUpdate ''doc1'' [1] 1 (1700000000000000000 + int i) r of
                  Inl e \<Rightarrow> r | Inr r' \<Rightarrow> r')
     [0..<n] \<lparr>rows = [], available = True\<rparr> =
     \<lparr>rows = map (\<lambda>i. \<lparr>upd_DocumentID = ''doc1'', Update = [1], upd_ClientID = 1,
                        CreatedAt = 1700000000000000000 + int i\<rparr>) [0..<n],
      available = True\<rparr>" for n
    by (induction n) (simp_all add: StoreUpdate_def)
  then show ?thesis by (simp add: long_log_def)
qed

lemma others_Nil [simp]: "others [] sm = Some ([], sm)"
  by (simp add: others_def)

lemma others_Done:
  "run es sm = Done sm' \<Longrightarrow> others (es # later) sm = Some (later, sm')"
  by (simp add: others_def)

lemma others_Cons:
  "others (es # later) sm = Some (rest, sm') \<longleftrightarrow> rest = later \<and> stands_at (run es sm) sm'"
  by (cases "run es sm") (auto simp: others_def)

lemma queue_enqueue [simp]:
  "queue (enqueue x s sm) r = (if r = s then queue sm s @ [x] else queue sm r)"
  by (simp add: enqueue_def queue_def set_send_def)

lemma sessions_enqueue_other [simp]:
  "r \<noteq> s \<Longrightarrow> sessions (enqueue x s sm) r = sessions sm r"
  by (simp add: enqueue_def set_send_def)

lemma frame_enqueue [simp]:
  "documents (enqueue x s sm) = documents sm" "broadcast (enqueue x s sm) = broadcast sm"
  "awareness (enqueue x s sm) = awareness sm" "aware_maps (enqueue x s sm) = aware_maps sm"
  "yjsRepo (enqueue x s sm) = yjsRepo sm"
  "DocumentID (sessions (enqueue x s sm) r) = DocumentID (sessions sm r)"
  "ch_cap (Send (sessions (enqueue x s sm) r)) = ch_cap (Send (sessions sm r))"
  "ch_closed (Send (sessions (enqueue x s sm) r)) = ch_closed (Send (sessions sm r))"
  by (simp_all add: enqueue_def set_send_def)

text \<open>
  One turn of the loop: when the others' events return and leave the session's channel
  open with room, the update is put at the end of its buffer.
\<close>

lemma send_updates_turn:
  assumes "others schedule sm = Some (later, sm')" and "has_room sm' s"
  shows "send_updates s (u # us) schedule sm =
     send_updates s us later (enqueue (Raw (Update u)) s sm')"
  using assms by (simp add: try_send_def has_room_def enqueue_def)

text \<open>
  The loop when the goroutine is not overtaken: it returns, the buffer gets the updates
  in the order of the list as far as it has room, and every later one is dropped.
\<close>

lemma send_updates_result:
  assumes "\<not> ch_closed (Send (sessions sm s))"
  shows "send_updates s us [] sm =
     Some ([], set_send s
       ((Send (sessions sm s))\<lparr>ch_buf := ch_buf (Send (sessions sm s)) @
           take (ch_cap (Send (sessions sm s)) - length (ch_buf (Send (sessions sm s))))
             (map (\<lambda>u. Raw (Update u)) us)\<rparr>) sm)"
  using assms
proof (induction us arbitrary: sm)
  case Nil
  then show ?case by (simp add: set_send_def)
next
  case (Cons u us)
  show ?case
  proof (cases "length (ch_buf (Send (sessions sm s))) < ch_cap (Send (sessions sm s))")
    case True
    define ch where "ch = (Send (sessions sm s))\<lparr>ch_buf := ch_buf (Send (sessions sm s)) @ [Raw (Update u)]\<rparr>"
    have ts: "try_send (Raw (Update u)) (Send (sessions sm s)) = Sent ch"
      using True Cons.prems by (simp add: try_send_def ch_def)
    have "\<not> ch_closed (Send (sessions (set_send s ch sm) s))"
      using Cons.prems by (simp add: set_send_def ch_def)
    from Cons.IH[OF this] ts True show ?thesis
      by (simp add: set_send_def ch_def take_Cons' Suc_diff_Suc split: nat.splits)
  next
    case False
    then have ts: "try_send (Raw (Update u)) (Send (sessions sm s)) = Full"
      using Cons.prems by (simp add: try_send_def)
    from Cons.IH[OF Cons.prems] ts False show ?thesis by simp
  qed
qed

lemma GetAllUpdates_in_arrival_order:
  assumes "available repo"
    and "sorted_wrt (<) (map CreatedAt (filter (\<lambda>u. upd_DocumentID u = d) (rows repo)))"
  shows "GetAllUpdates repo d = Inr (filter (\<lambda>u. upd_DocumentID u = d) (rows repo))"
proof -
  have "sorted (map CreatedAt (filter (\<lambda>u. upd_DocumentID u = d) (rows repo)))"
    using assms(2) by (simp add: strict_sorted_imp_sorted)
  then show ?thesis
    using assms(1) by (simp add: GetAllUpdates_def sort_key_id_if_sorted)
qed

lemma replay_after_store:
  assumes "available r" and "rows r = []" and "t1 < t2"
    and "StoreUpdate d p1 c1 t1 r = Inr r1" and "StoreUpdate d p2 c2 t2 r1 = Inr r2"
  shows "\<exists>us. GetAllUpdates r2 d = Inr us \<and> map Update us = [p1, p2]"
  using assms by (auto simp: StoreUpdate_def GetAllUpdates_def)

lemma send_awareness_result:
  assumes "\<not> ch_closed (Send (sessions sm s))"
  shows "send_awareness marshals s [] sm =
     (case GetAwareness (DocumentID (sessions sm s)) sm of
        None \<Rightarrow> Done sm
      | Some m \<Rightarrow>
          if marshals (aware_maps sm m)
          then (if length (queue sm s) < ch_cap (Send (sessions sm s))
                then Done (enqueue (AwareData (aware_maps sm m)) s sm)
                else Blocked sm)
          else Done sm)"
  using assms
  by (simp add: send_awareness_def try_send_def queue_def enqueue_def split: option.splits)

lemma sendInitialState_result:
  assumes "yjsRepo sm = Some repo"
    and "GetAllUpdates repo (DocumentID (sessions sm s)) = Inr us"
    and "\<not> ch_closed (Send (sessions sm s))"
  shows "sendInitialState marshals s [] sm =
     send_awareness marshals s []
       (set_send s
          ((Send (sessions sm s))\<lparr>ch_buf := queue sm s @
              take (ch_cap (Send (sessions sm s)) - length (queue sm s))
                (map (\<lambda>u. Raw (Update u)) us)\<rparr>) sm)"
  using assms(1,2) send_updates_result[OF assms(3), of us]
  by (simp add: sendInitialState_def queue_def)

text \<open>
  What \<open>sendInitialState\<close> leaves behind when the goroutine is not overtaken, for any
  session with an open channel while the update log answers. The updates are put on
  the channel in the order of the log as far as the buffer has room, the others are
  dropped, and no error value or error frame exists on that path. After them comes the
  awareness frame, when there is an awareness map for the document and it can be
  encoded; and \<open>sendInitialState\<close> returns unless that frame finds the buffer full. The
  registry, the hub's broadcast buffer and the other sessions are not touched.
\<close>

lemma replay_keeps_what_fits:
  assumes "yjsRepo sm = Some repo"
    and "GetAllUpdates repo (DocumentID (sessions sm s)) = Inr us"
    and "\<not> ch_closed (Send (sessions sm s))"
    and "q1 = queue sm s @
       take (ch_cap (Send (sessions sm s)) - length (queue sm s)) (map (\<lambda>u. Raw (Update u)) us)"
  shows "\<exists>sm1. stands_at (sendInitialState marshals s [] sm) sm1 \<and>
     (queue sm1 s = q1 \<or>
      (\<exists>m. GetAwareness (DocumentID (sessions sm s)) sm = Some m \<and> marshals (aware_maps sm m) \<and>
           queue sm1 s = q1 @ [AwareData (aware_maps sm m)])) \<and>
     ((sendInitialState marshals s [] sm = Done sm1) =
        (\<forall>m. GetAwareness (DocumentID (sessions sm s)) sm = Some m \<and> marshals (aware_maps sm m)
           \<longrightarrow> length q1 < ch_cap (Send (sessions sm s)))) \<and>
     documents sm1 = documents sm \<and> broadcast sm1 = broadcast sm \<and>
     awareness sm1 = awareness sm \<and> aware_maps sm1 = aware_maps sm \<and>
     (\<forall>r. r \<noteq> s \<longrightarrow> sessions sm1 r = sessions sm r) \<and>
     DocumentID (sessions sm1 s) = DocumentID (sessions sm s)"
proof -
  define smU where "smU = set_send s ((Send (sessions sm s))\<lparr>ch_buf := q1\<rparr>) sm"
  have i: "sendInitialState marshals s [] sm = send_awareness marshals s [] smU"
    using sendInitialState_result[OF assms(1,2,3)] by (simp add: smU_def assms(4))
  have u: "\<not> ch_closed (Send (sessions smU s))" "queue smU s = q1"
    "ch_cap (Send (sessions smU s)) = ch_cap (Send (sessions sm s))"
    "DocumentID (sessions smU s) = DocumentID (sessions sm s)"
    "GetAwareness d smU = GetAwareness d sm" "aware_maps smU = aware_maps sm"
    "documents smU = documents sm" "broadcast smU = broadcast sm" "awareness smU = awareness sm"
    "\<forall>r. r \<noteq> s \<longrightarrow> sessions smU r = sessions sm r" for d
    using assms(3) by (simp_all add: smU_def set_send_def queue_def GetAwareness_def)
  show ?thesis
  proof (cases "GetAwareness (DocumentID (sessions sm s)) sm")
    case None
    then have "send_awareness marshals s [] smU = Done smU"
      using send_awareness_result[OF u(1)] by (simp add: u)
    then show ?thesis using i u None by auto
  next
    case (Some m)
    show ?thesis
    proof (cases "marshals (aware_maps sm m)")
      case False
      then have "send_awareness marshals s [] smU = Done smU"
        using send_awareness_result[OF u(1)] Some by (simp add: u)
      then show ?thesis using i u Some False by auto
    next
      case True
      show ?thesis
      proof (cases "length q1 < ch_cap (Send (sessions sm s))")
        case False
        then have "send_awareness marshals s [] smU = Blocked smU"
          using send_awareness_result[OF u(1)] Some True by (simp add: u)
        then show ?thesis using i u Some True False by auto
      next
        case room: True
        define smV where "smV = enqueue (AwareData (aware_maps sm m)) s smU"
        have "send_awareness marshals s [] smU = Done smV"
          using send_awareness_result[OF u(1)] Some True room by (simp add: u smV_def)
        moreover have "queue smV s = q1 @ [AwareData (aware_maps sm m)]"
          "documents smV = documents sm" "broadcast smV = broadcast sm"
          "awareness smV = awareness sm" "aware_maps smV = aware_maps sm"
          "\<forall>r. r \<noteq> s \<longrightarrow> sessions smV r = sessions sm r"
          "DocumentID (sessions smV s) = DocumentID (sessions sm s)"
          using u by (simp_all add: smV_def enqueue_def set_send_def queue_def)
        ultimately show ?thesis using i Some True room by auto
      qed
    qed
  qed
qed

text \<open>
  A connection whose upgrade fails leaves the hub's state as it was, and one that the
  hub does not take waits with its session made and not registered.
\<close>

lemma HandleDocumentConnection_not_registered:
  "HandleDocumentConnection UpgradeFailed marshals p session schedule sm = Done sm"
  "HandleDocumentConnection NotTaken marshals p session schedule sm =
     Blocked (sm\<lparr>sessions := (sessions sm)(p := session)\<rparr>)"
  by (simp_all add: HandleDocumentConnection_def)

text \<open>
  A connection that is not overtaken, to a room that has no awareness map or one that
  cannot be encoded: whatever the replay had to drop, the handler returns, the new
  session is a member of its room, and its buffer holds the updates that fitted.
\<close>

lemma connection_returns_without_awareness:
  assumes "yjsRepo sm = Some repo"
    and "GetAllUpdates repo (DocumentID session) = Inr us"
    and "\<not> ch_closed (Send session)"
    and "\<forall>m. GetAwareness (DocumentID session) sm = Some m \<longrightarrow> \<not> marshals (aware_maps sm m)"
  shows "\<exists>sm1. HandleDocumentConnection Taken marshals p session [] sm = Done sm1 \<and>
     queue sm1 p = ch_buf (Send session) @
       take (ch_cap (Send session) - length (ch_buf (Send session))) (map (\<lambda>u. Raw (Update u)) us) \<and>
     registered sm1 p \<and> room sm1 (DocumentID session) = insert p (room sm (DocumentID session))"
proof -
  define sm0 where "sm0 = sm\<lparr>sessions := (sessions sm)(p := session)\<rparr>"
  have "\<exists>smR. stands_at (handleRegister p sm0) smR"
    by (simp add: handleRegister_def send_broadcast_def Let_def)
  then obtain smR where st: "stands_at (handleRegister p sm0) smR" ..
  have fr: "sessions smR = sessions sm0" "awareness smR = awareness sm"
    "aware_maps smR = aware_maps sm" "yjsRepo smR = yjsRepo sm"
    using frame_handleRegister[OF st] by (simp_all add: sm0_def)
  have dc: "documents smR =
      (documents sm)(DocumentID session \<mapsto> insert p (room sm (DocumentID session)))"
    using documents_handleRegister[OF st] by (simp add: sm0_def room_def)
  have sp: "sessions smR p = session" by (simp add: fr sm0_def)
  have e: "HandleDocumentConnection Taken marshals p session [] sm =
      sendInitialState marshals p [] smR"
    using st by (cases "handleRegister p sm0") (simp_all add: HandleDocumentConnection_def sm0_def)
  have g: "GetAwareness (DocumentID session) smR = GetAwareness (DocumentID session) sm"
    by (simp add: GetAwareness_def fr)
  from replay_keeps_what_fits[of smR repo p us _ marshals, OF _ _ _ refl]
    assms sp fr g
  obtain sm1 where "sendInitialState marshals p [] smR = Done sm1"
    and "queue sm1 p = ch_buf (Send session) @
       take (ch_cap (Send session) - length (ch_buf (Send session))) (map (\<lambda>u. Raw (Update u)) us)"
    and "documents sm1 = documents smR" and "DocumentID (sessions sm1 p) = DocumentID session"
    by (auto simp: queue_def)
  then show ?thesis using e dc by (auto simp: registered_def room_def)
qed

text \<open>The log of 300 updates is replayed in the order of its rows.\<close>

lemma long_log_updates: "GetAllUpdates long_log ''doc1'' = Inr (rows long_log)"
proof -
  have f: "filter (\<lambda>u. upd_DocumentID u = ''doc1'') (rows long_log) = rows long_log"
    by (simp add: long_log_def filter_map o_def)
  have "sorted_wrt (<) (map CreatedAt (rows long_log))"
    by (simp add: long_log_def sorted_wrt_map o_def)
  then show ?thesis
    using GetAllUpdates_in_arrival_order[of long_log "''doc1''"] f
    by (simp add: long_log_def)
qed

lemma long_log_frames: "map (\<lambda>u. Raw (Update u)) (rows long_log) = replicate 300 (Raw [1])"
  by (simp add: long_log_def o_def map_replicate_const)

text \<open>
  C9. A connection for \<open>doc1\<close> arrives at the room at rest; the update log holds 300
  updates of \<open>doc1\<close> and there is an awareness entry for the document. The hub registers
  the new session, and the replay puts the first 256 updates on the new channel and
  drops the other 44. Then the awareness frame finds the buffer full: the plain send
  of \<open>sendInitialState\<close> waits for room, and nothing reads that channel before
  \<open>sendInitialState\<close> has returned. The handler is parked there; the new session is a
  member of the room, with a full buffer and no pumps.
\<close>

theorem initial_state_parks_on_full_queue:
  "parked (HandleDocumentConnection Taken marshals_all 7 carol [] lively_room) \<and>
   queue_at 7 (HandleDocumentConnection Taken marshals_all 7 carol [] lively_room) =
     Some (replicate 256 (Raw [1])) \<and>
   members_at ''doc1'' (HandleDocumentConnection Taken marshals_all 7 carol [] lively_room) =
     Some {1, 2, 3, 7}"
proof -
  define smA where "smA = lively_room
     \<lparr>documents := [''doc1'' \<mapsto> {1, 2, 3, 7}],
      broadcast := [\<lparr>msg_DocumentID = ''doc1'', Message = Join ''carol'' ''Carol'', Sender = Some 7\<rparr>],
      sessions := (sessions lively_room)(7 := carol)\<rparr>"
  have r: "handleRegister 7 (lively_room\<lparr>sessions := (sessions lively_room)(7 := carol)\<rparr>) = Done smA"
    by (auto simp: smA_def lively_room_def UpdateAwareness_def SetYjsRepository_def demo_room_def
        handleRegister_def send_broadcast_def broadcast_cap_def room_def carol_def
        new_session_def Let_def)
  have a: "yjsRepo smA = Some long_log" "DocumentID (sessions smA 7) = ''doc1''"
    "\<not> ch_closed (Send (sessions smA 7))" "queue smA 7 = []"
    "ch_cap (Send (sessions smA 7)) = 256"
    "GetAwareness ''doc1'' smA = Some 0" "room smA ''doc1'' = {1, 2, 3, 7}"
    by (simp_all add: smA_def lively_room_def UpdateAwareness_def SetYjsRepository_def
        demo_room_def carol_def new_session_def queue_def send_cap_def GetAwareness_def
        room_def Let_def)
  define smU where "smU = set_send 7
       ((Send (sessions smA 7))\<lparr>ch_buf := replicate 256 (Raw [1])\<rparr>) smA"
  have "sendInitialState marshals_all 7 [] smA = send_awareness marshals_all 7 [] smU"
    using sendInitialState_result[of smA long_log 7 "rows long_log" marshals_all] a
    by (simp add: long_log_updates long_log_frames smU_def)
  moreover have "send_awareness marshals_all 7 [] smU = Blocked smU"
    using a by (simp add: send_awareness_def smU_def set_send_def GetAwareness_def
        marshals_all_def try_send_def queue_def)
  ultimately have "HandleDocumentConnection Taken marshals_all 7 carol [] lively_room = Blocked smU"
    using r by (simp add: HandleDocumentConnection_def)
  moreover have "queue smU 7 = replicate 256 (Raw [1])" "room smU ''doc1'' = {1, 2, 3, 7}"
    using a by (simp_all add: smU_def set_send_def queue_def room_def)
  ultimately show ?thesis by (simp add: parked_def queue_at_def members_at_def)
qed

text \<open>
  The same connection to the same room without the awareness entry returns, and the
  new session's buffer holds the same 256 updates.
\<close>

lemma initial_state_returns_without_awareness:
  "\<exists>sm1. HandleDocumentConnection Taken marshals_all 7 carol []
            (SetYjsRepository long_log demo_room) = Done sm1 \<and>
         queue sm1 7 = replicate 256 (Raw [1]) \<and> room sm1 ''doc1'' = {1, 2, 3, 7}"
proof -
  let ?sm = "SetYjsRepository long_log demo_room"
  have a: "yjsRepo ?sm = Some long_log" "DocumentID carol = ''doc1''"
    "\<not> ch_closed (Send carol)" "ch_buf (Send carol) = []" "ch_cap (Send carol) = 256"
    "GetAwareness ''doc1'' ?sm = None" "room ?sm ''doc1'' = {1, 2, 3}"
    by (simp_all add: SetYjsRepository_def demo_room_def carol_def new_session_def
        send_cap_def GetAwareness_def room_def)
  from connection_returns_without_awareness[of ?sm long_log carol "rows long_log"
      marshals_all 7] a long_log_updates
  obtain sm1 where "HandleDocumentConnection Taken marshals_all 7 carol [] ?sm = Done sm1"
    and "queue sm1 7 = replicate 256 (Raw [1])"
    and "room sm1 ''doc1'' = insert 7 (room ?sm ''doc1'')"
    by (auto simp: long_log_frames)
  then show ?thesis using a(7) by auto
qed

subsection \<open>Joining\<close>

text \<open>
  As long as a session's \<open>WritePump\<close> takes nothing off its channel, what the channel
  holds stays in place, and what is put on it comes behind.
\<close>

lemma queue_broadcast_loop:
  "stands_at (broadcast_loop msg ord sm) sm' \<Longrightarrow> \<exists>xs. queue sm' p = queue sm p @ xs"
proof (induction msg ord sm rule: broadcast_loop.induct)
  case (1 msg sm)
  then show ?case by simp
next
  case (2 msg session rest sm)
  show ?case
  proof (cases "Sender msg = Some session")
    case True
    then show ?thesis using 2 by auto
  next
    case False
    show ?thesis
    proof (cases "try_send (Message msg) (Send (sessions sm session))")
      case (Sent ch)
      then have ch: "ch = (Send (sessions sm session))\<lparr>ch_buf := ch_buf (Send (sessions sm session)) @ [Message msg]\<rparr>"
        by (auto simp: try_send_def split: if_splits)
      from 2(2)[OF False Sent] 2(3) False Sent
      obtain xs where "queue sm' p = queue (set_send session ch sm) p @ xs" by auto
      moreover have "\<exists>ys. queue (set_send session ch sm) p = queue sm p @ ys"
        by (simp add: ch queue_def set_send_def)
      ultimately show ?thesis by auto
    next
      case Full
      then show ?thesis using 2(3) False by simp
    next
      case Closed
      then show ?thesis using 2(3) False by simp
    qed
  qed
qed

lemma queue_step:
  assumes "e \<noteq> Receive p" and "stands_at (step e sm) sm'"
  shows "\<exists>xs. queue sm' p = queue sm p @ xs"
proof (cases e)
  case (Register s)
  then show ?thesis
    using assms frame_handleRegister[of s sm sm'] by (simp add: queue_def)
next
  case (Unregister s)
  then show ?thesis
    using assms
    by (auto simp: handleUnregister_def Let_def set_send_def remove_awareness_def queue_def
        split: option.splits if_splits dest!: stands_at_send_broadcast)
next
  case (Deliver ord)
  show ?thesis
  proof (cases "broadcast sm")
    case Nil
    then show ?thesis using assms Deliver by simp
  next
    case (Cons msg pending)
    then have "stands_at (broadcast_loop msg
        (filter (\<lambda>session. session \<in> room (sm\<lparr>broadcast := pending\<rparr>) (msg_DocumentID msg)) ord)
        (sm\<lparr>broadcast := pending\<rparr>)) sm'"
      using assms Deliver by (simp add: handleBroadcast_def)
    from queue_broadcast_loop[OF this, of p] show ?thesis by (simp add: queue_def)
  qed
next
  case (CallBroadcast d m s)
  then show ?thesis
    using assms by (auto simp: Broadcast_def send_broadcast_def queue_def split: if_splits)
next
  case (CallUpdateAwareness d c a)
  then show ?thesis
    using assms by (auto simp: UpdateAwareness_def Let_def queue_def split: option.splits)
next
  case (Receive s)
  then show ?thesis using assms by (auto simp: set_send_def queue_def)
next
  case (Active s now)
  then show ?thesis using assms by (auto simp: queue_def)
qed

lemma queue_run:
  assumes "Receive p \<notin> set es" and "stands_at (run es sm) sm'"
  shows "\<exists>xs. queue sm' p = queue sm p @ xs"
  using assms
proof (induction es arbitrary: sm)
  case Nil
  then show ?case by simp
next
  case (Cons e es)
  from stands_at_run_Cons[OF Cons.prems(2)] show ?case
  proof
    assume "stands_at (step e sm) sm'"
    then show ?thesis using Cons.prems(1) queue_step[of e p sm sm'] by auto
  next
    assume "\<exists>sm1. step e sm = Done sm1 \<and> stands_at (run es sm1) sm'"
    then obtain sm1 where s: "step e sm = Done sm1" and r: "stands_at (run es sm1) sm'"
      by blast
    from s Cons.prems(1) queue_step[of e p sm sm1]
    obtain xs where "queue sm1 p = queue sm p @ xs" by auto
    moreover from Cons.IH[OF _ r] Cons.prems(1)
    obtain ys where "queue sm' p = queue sm1 p @ ys" by auto
    ultimately show ?thesis by auto
  qed
qed

lemma queue_others:
  assumes "others schedule sm = Some (later, sm')" and "Receive p \<notin> set (concat schedule)"
  shows "(\<exists>xs. queue sm' p = queue sm p @ xs) \<and> Receive p \<notin> set (concat later)"
proof (cases schedule)
  case Nil
  then show ?thesis using assms by simp
next
  case (Cons es rest)
  then have "later = rest" and "stands_at (run es sm) sm'"
    using assms(1) by (simp_all add: others_Cons)
  then show ?thesis
    using queue_run[of p es sm sm'] assms(2) Cons by simp
qed

text \<open>The sample states of this part are reached by events of the program.\<close>

lemma pending_room_reachable:
  "run [CallBroadcast ''doc1'' (Raw [9]) (Some 1)] logged_room = Done pending_room"
  by (simp add: pending_room_def logged_room_def SetYjsRepository_def demo_room_def
      Broadcast_def send_broadcast_def broadcast_cap_def)

lemma busy_room_reachable:
  "run (replicate 256 (CallBroadcast ''doc1'' (Raw []) (Some 1))) logged_room = Done busy_room"
proof -
  have "k \<le> 256 \<Longrightarrow>
      run (replicate k (CallBroadcast ''doc1'' (Raw []) (Some 1))) logged_room =
      Done (logged_room\<lparr>broadcast :=
        replicate k \<lparr>msg_DocumentID = ''doc1'', Message = Raw [], Sender = Some 1\<rparr>\<rparr>)" for k
  proof (induction k)
    case 0
    then show ?case by (simp add: logged_room_def SetYjsRepository_def demo_room_def)
  next
    case (Suc k)
    have e: "replicate (Suc k) c = replicate k c @ [c]" for c :: 'a
      by (simp add: replicate_append_same)
    show ?case
      unfolding e using Suc
      by (simp add: run_append Broadcast_def send_broadcast_def broadcast_cap_def
          del: replicate_append_same)
  qed
  from this[of 256] show ?thesis by (simp add: busy_room_def)
qed

lemma joined_room_registered:
  "handleRegister 7 (logged_room\<lparr>sessions := (sessions logged_room)(7 := carol)\<rparr>) =
     Done joined_room"
  by (auto simp: joined_room_def logged_room_def SetYjsRepository_def demo_room_def
      handleRegister_def send_broadcast_def broadcast_cap_def room_def carol_def
      new_session_def Let_def)

lemma crowd_0: "run admitted joined_room = Done (crowd 0)"
  apply (simp add: admitted_def crowd_def joined_room_def logged_room_def SetYjsRepository_def
      demo_room_def handleBroadcast_def room_def try_send_def set_send_def demo_heap_def
      new_session_def carol_def send_cap_def)
  apply (auto simp: fun_eq_iff demo_heap_def new_session_def send_cap_def)
  done

lemma crowd_step: "k < 256 \<Longrightarrow> run flood (crowd k) = Done (crowd (Suc k))"
  apply (simp add: flood_def crowd_def logged_room_def SetYjsRepository_def demo_room_def
      Broadcast_def send_broadcast_def broadcast_cap_def handleBroadcast_def room_def
      try_send_def set_send_def demo_heap_def new_session_def carol_def send_cap_def)
  apply (auto simp: fun_eq_iff replicate_append_same demo_heap_def new_session_def send_cap_def)
  done

lemma crowd_run: "k \<le> 256 \<Longrightarrow> run (concat (replicate k flood)) (crowd 0) = Done (crowd k)"
proof (induction k)
  case 0
  then show ?case by simp
next
  case (Suc k)
  then have "run (concat (replicate k flood)) (crowd 0) = Done (crowd k)" by simp
  moreover have "concat (replicate (Suc k) flood) = concat (replicate k flood) @ flood"
    by (metis append_Nil2 concat.simps(1) concat.simps(2) concat_append replicate_Suc replicate_append_same)
  ultimately show ?case using crowd_step[of k] Suc.prems by (simp add: run_append)
qed

lemma crowd_reachable:
  "k \<le> 256 \<Longrightarrow> run (admitted @ concat (replicate k flood)) joined_room = Done (crowd k)"
  using crowd_0 crowd_run[of k] by (simp add: run_append)

text \<open>
  C7, as the code has it. A connection for document \<open>d\<close> is accepted while the update
  log holds two updates of \<open>d\<close>, the first one older; \<open>sm0\<close> is the state with the new
  session stored at its address \<open>p\<close>, and \<open>smR\<close> the state in which \<open>handleRegister\<close>
  leaves the hub.

  \<^item> \<open>handleRegister\<close> puts the new session into its room; when the hub's broadcast
    buffer has room it returns, with the join message queued behind the messages that
    were waiting.
  \<^item> The replay, for every schedule that takes nothing off the new session's channel
    (its pumps are not running yet). The others act and leave \<open>smA\<close>, the first update
    is sent; they act again and leave \<open>smB\<close>, the second update is sent. When the new
    session's channel is open with room in \<open>smA\<close> and in \<open>smB\<close>, both updates are put
    on it, the first of them before the second, behind what the channel held and with
    what the hub delivered in between; the handler goes on to the awareness part. With
    nothing left of the schedule the handler then stands with at most the awareness
    frame behind the second update, and it returns when the buffer had room left.
  \<^item> In whatever state \<open>smJ\<close> the join message has become the oldest in the hub's
    buffer: when every member of the room at that time, the new session apart, has
    room, the hub's next delivery returns, each of them has the join message at the end
    of its buffer, and the new session's buffer is what it was.
\<close>

theorem join_sends_history_and_announces:
  assumes "session = new_session ksuid d user_id user_name client_id nanos now"
    and "join = \<lparr>msg_DocumentID = d, Message = Join (UserID session) (UserName session),
                 Sender = Some p\<rparr>"
    and "yjsRepo sm = Some repo" and "available repo"
    and "filter (\<lambda>u. upd_DocumentID u = d) (rows repo) = [u1, u2]"
    and "CreatedAt u1 < CreatedAt u2"
    and "sm0 = sm\<lparr>sessions := (sessions sm)(p := session)\<rparr>"
    and "stands_at (handleRegister p sm0) smR"
    and "smP = enqueue (Raw (Update u2)) p smB"
    and "connection = HandleDocumentConnection Taken marshals p session schedule sm"
  shows "room smR d = insert p (room sm d) \<and>
    (length (broadcast sm) < broadcast_cap \<longrightarrow>
       handleRegister p sm0 = Done smR \<and> broadcast smR = broadcast sm @ [join]) \<and>
    (others schedule smR = Some (later, smA) \<and> has_room smA p \<and>
     others later (enqueue (Raw (Update u1)) p smA) = Some (rest, smB) \<and> has_room smB p \<and>
     Receive p \<notin> set (concat schedule) \<longrightarrow>
       connection = send_awareness marshals p rest smP \<and>
       (\<exists>xs. queue smP p = queue smA p @ [Raw (Update u1)] @ xs @ [Raw (Update u2)]) \<and>
       (rest = [] \<longrightarrow>
          (\<exists>sm1. stands_at connection sm1 \<and>
             (queue sm1 p = queue smP p \<or> (\<exists>m. queue sm1 p = queue smP p @ [AwareData m])) \<and>
             (length (queue smP p) < ch_cap (Send (sessions smP p)) \<longrightarrow> connection = Done sm1)))) \<and>
    (broadcast smJ = join # pending \<and> range_order ord (room smJ d) \<and>
     (\<forall>r \<in> room smJ d. r \<noteq> p \<longrightarrow> has_room smJ r) \<longrightarrow>
       (\<exists>smK. step (Deliver ord) smJ = Done smK \<and> broadcast smK = pending \<and>
          (\<forall>r \<in> room smJ d. r \<noteq> p \<longrightarrow>
             queue smK r = queue smJ r @ [Join (UserID session) (UserName session)]) \<and>
          queue smK p = queue smJ p))"
proof (intro conjI impI)
  have dp: "DocumentID session = d" using assms(1) by (simp add: new_session_def)
  have s0: "sessions sm0 p = session" by (simp add: assms(7))
  show "room smR d = insert p (room sm d)"
    using documents_handleRegister[OF assms(8)] by (simp add: s0 dp) (simp add: assms(7) room_def)
  {
    assume "length (broadcast sm) < broadcast_cap"
    then have "\<exists>smR'. handleRegister p sm0 = Done smR' \<and> broadcast smR' = broadcast sm @ [join]"
      by (simp add: handleRegister_def send_broadcast_def Let_def s0 dp assms(2))
         (simp add: assms(7))
    then show "handleRegister p sm0 = Done smR" and "broadcast smR = broadcast sm @ [join]"
      using assms(8) by auto
  }
  {
    assume h: "others schedule smR = Some (later, smA) \<and> has_room smA p \<and>
     others later (enqueue (Raw (Update u1)) p smA) = Some (rest, smB) \<and> has_room smB p \<and>
     Receive p \<notin> set (concat schedule)"
    have f: "DocumentID (sessions smR p) = d" "yjsRepo smR = Some repo"
      using frame_handleRegister[OF assms(8)] assms(3) dp by (simp_all add: assms(7))
    have g: "GetAllUpdates repo (DocumentID (sessions smR p)) = Inr [u1, u2]"
      using GetAllUpdates_in_arrival_order[of repo d] assms(4,5,6) f(1) by simp
    have "send_updates p [u1, u2] schedule smR =
        send_updates p [u2] later (enqueue (Raw (Update u1)) p smA)"
      using h by (intro send_updates_turn) simp_all
    also have "\<dots> = send_updates p [] rest smP"
      unfolding assms(9) using h by (intro send_updates_turn) simp_all
    finally have "send_updates p [u1, u2] schedule smR = Some (rest, smP)"
      by simp
    then have "sendInitialState marshals p schedule smR = send_awareness marshals p rest smP"
      using f(2) g by (simp add: sendInitialState_def)
    moreover have "connection = sendInitialState marshals p schedule smR"
      using assms(8)
      by (cases "handleRegister p sm0")
         (simp_all add: assms(7,10) HandleDocumentConnection_def)
    ultimately show c: "connection = send_awareness marshals p rest smP" by simp
    from queue_others[of schedule smR later smA p] h
    have l: "Receive p \<notin> set (concat later)" by auto
    from queue_others[of later "enqueue (Raw (Update u1)) p smA" rest smB p] h l
    obtain xs where "queue smB p = (queue smA p @ [Raw (Update u1)]) @ xs" by auto
    then show "\<exists>xs. queue smP p = queue smA p @ [Raw (Update u1)] @ xs @ [Raw (Update u2)]"
      by (auto simp: assms(9))
    {
      assume "rest = []"
      have o: "\<not> ch_closed (Send (sessions smP p))"
        using h by (simp add: assms(9) has_room_def)
      show "\<exists>sm1. stands_at connection sm1 \<and>
             (queue sm1 p = queue smP p \<or> (\<exists>m. queue sm1 p = queue smP p @ [AwareData m])) \<and>
             (length (queue smP p) < ch_cap (Send (sessions smP p)) \<longrightarrow> connection = Done sm1)"
        unfolding c \<open>rest = []\<close> send_awareness_result[OF o]
        by (auto split: option.splits)
    }
  }
  {
    assume h: "broadcast smJ = join # pending \<and> range_order ord (room smJ d) \<and>
       (\<forall>r \<in> room smJ d. r \<noteq> p \<longrightarrow> has_room smJ r)"
    define smJ' where "smJ' = smJ\<lparr>broadcast := pending\<rparr>"
    have rm: "room smJ' d = room smJ d" "sessions smJ' = sessions smJ"
      by (simp_all add: smJ'_def room_def)
    have o: "distinct ord" "set ord = room smJ d"
      using h by (simp_all add: range_order_def)
    have "\<forall>r \<in> set ord. Sender join \<noteq> Some r \<longrightarrow> has_room smJ' r"
      using h o by (auto simp: assms(2) has_room_def rm)
    with o(1) obtain smK where l: "broadcast_loop join ord smJ' = Done smK"
      and q: "\<forall>r. sessions smK r =
          (if r \<in> set ord \<and> Sender join \<noteq> Some r then push (Message join) (sessions smJ' r)
           else sessions smJ' r)"
      using broadcast_loop_done[of ord join smJ'] by blast
    have "range_order ord (room smJ' (msg_DocumentID join))"
      using h by (simp add: assms(2) rm)
    then have d: "step (Deliver ord) smJ = Done smK"
      using h l by (simp add: handleBroadcast_range_order smJ'_def)
    have "stands_at (broadcast_loop join ord smJ') smK" using l by simp
    from frame_broadcast_loop[OF this] have b: "broadcast smK = pending"
      by (simp add: smJ'_def)
    have "queue smK r = queue smJ r @ [Join (UserID session) (UserName session)]"
      if "r \<in> room smJ d" "r \<noteq> p" for r
      using that q o by (auto simp: assms(2) queue_def push_def rm)
    moreover have "queue smK p = queue smJ p"
      using q by (simp add: assms(2) queue_def rm)
    ultimately show "\<exists>smK. step (Deliver ord) smJ = Done smK \<and> broadcast smK = pending \<and>
          (\<forall>r \<in> room smJ d. r \<noteq> p \<longrightarrow>
             queue smK r = queue smJ r @ [Join (UserID session) (UserName session)]) \<and>
          queue smK p = queue smJ p"
      using d b by blast
  }
qed

text \<open>
  The theorem at work. A broadcast of session 1 is waiting in the hub's buffer when
  the connection at address 7 is accepted. The hub delivers it before the first update
  is sent; between the two updates the hub delivers the join message, and a frame that
  session 2 sends meanwhile. The new session's buffer then holds the first update
  before the second with that frame between them, and sessions 1, 2 and 3 have the
  join message.
\<close>

theorem join_sends_history_and_announces_witness:
  "\<exists>smR smA smB smK sm1.
     handleRegister 7 (pending_room\<lparr>sessions := (sessions pending_room)(7 := carol)\<rparr>) = Done smR \<and>
     room smR ''doc1'' = {1, 2, 3, 7} \<and>
     broadcast smR =
       [\<lparr>msg_DocumentID = ''doc1'', Message = Raw [9], Sender = Some 1\<rparr>,
        \<lparr>msg_DocumentID = ''doc1'', Message = Join ''carol'' ''Carol'', Sender = Some 7\<rparr>] \<and>
     run [Deliver [1, 2, 3, 7]] smR = Done smA \<and> has_room smA 7 \<and> queue smA 7 = [Raw [9]] \<and>
     run [Deliver [1, 7, 3, 2], CallBroadcast ''doc1'' (Raw [8]) (Some 2), Deliver [3, 2, 1, 7]]
       (enqueue (Raw [1, 1]) 7 smA) = Done smB \<and> has_room smB 7 \<and>
     HandleDocumentConnection Taken marshals_all 7 carol
       [[Deliver [1, 2, 3, 7]],
        [Deliver [1, 7, 3, 2], CallBroadcast ''doc1'' (Raw [8]) (Some 2), Deliver [3, 2, 1, 7]]]
       pending_room = Done sm1 \<and>
     queue sm1 7 = [Raw [9], Raw [1, 1], Raw [8], Raw [2, 2]] \<and>
     range_order [1, 7, 3, 2] (room (enqueue (Raw [1, 1]) 7 smA) ''doc1'') \<and>
     step (Deliver [1, 7, 3, 2]) (enqueue (Raw [1, 1]) 7 smA) = Done smK \<and>
     queue smK 1 = [Join ''carol'' ''Carol''] \<and>
     queue smK 2 = [Raw [9], Join ''carol'' ''Carol''] \<and>
     queue smK 3 = [Raw [9], Join ''carol'' ''Carol''] \<and>
     queue smK 7 = [Raw [9], Raw [1, 1]]"
proof -
  let ?sm0 = "pending_room\<lparr>sessions := (sessions pending_room)(7 := carol)\<rparr>"
  let ?join = "\<lparr>msg_DocumentID = ''doc1'', Message = Join ''carol'' ''Carol'', Sender = Some 7\<rparr>"
  let ?before = "[Deliver [1, 2, 3, 7]]"
  let ?between = "[Deliver [1, 7, 3, 2], CallBroadcast ''doc1'' (Raw [8]) (Some 2),
     Deliver [3, 2, 1, 7]]"
  define smR where "smR = pending_room\<lparr>sessions := (sessions pending_room)(7 := carol),
       documents := [''doc1'' \<mapsto> {1, 2, 3, 7}],
       broadcast := broadcast pending_room @ [?join]\<rparr>"
  have reg: "handleRegister 7 ?sm0 = Done smR"
    by (auto simp: smR_def pending_room_def logged_room_def SetYjsRepository_def demo_room_def
        handleRegister_def send_broadcast_def broadcast_cap_def room_def carol_def
        new_session_def Let_def)
  then have st: "stands_at (handleRegister 7 ?sm0) smR" by simp
  have "\<exists>smA. run ?before smR = Done smA \<and> has_room smA 7 \<and>
     queue smA 7 = [Raw [9]] \<and> ch_cap (Send (sessions smA 7)) = 256 \<and>
     \<not> ch_closed (Send (sessions smA 7)) \<and> GetAwareness ''doc1'' smA = None \<and>
     broadcast smA = [?join] \<and> documents smA = [''doc1'' \<mapsto> {1, 2, 3, 7}] \<and>
     has_room smA 1 \<and> has_room smA 2 \<and> has_room smA 3 \<and>
     queue smA 1 = [] \<and> queue smA 2 = [Raw [9]] \<and> queue smA 3 = [Raw [9]]"
    by (auto simp: smR_def pending_room_def logged_room_def SetYjsRepository_def demo_room_def
        handleBroadcast_def room_def
        try_send_def set_send_def demo_heap_def new_session_def carol_def send_cap_def
        queue_def GetAwareness_def has_room_def)
  then obtain smA where ra: "run ?before smR = Done smA"
    and a: "has_room smA 7" "queue smA 7 = [Raw [9]]" "ch_cap (Send (sessions smA 7)) = 256"
      "\<not> ch_closed (Send (sessions smA 7))" "GetAwareness ''doc1'' smA = None"
    and b: "broadcast smA = [?join]" "documents smA = [''doc1'' \<mapsto> {1, 2, 3, 7}]"
    and hr: "has_room smA 1" "has_room smA 2" "has_room smA 3"
    and qa: "queue smA 1 = []" "queue smA 2 = [Raw [9]]" "queue smA 3 = [Raw [9]]"
    by blast
  define smJ where "smJ = enqueue (Raw [1, 1]) 7 smA"
  have j: "broadcast smJ = ?join # []" "room smJ ''doc1'' = {1, 2, 3, 7}"
    "has_room smJ 1" "has_room smJ 2" "has_room smJ 3"
    "queue smJ 1 = []" "queue smJ 2 = [Raw [9]]" "queue smJ 3 = [Raw [9]]"
    "queue smJ 7 = [Raw [9], Raw [1, 1]]"
    using a b hr qa by (simp_all add: smJ_def room_def has_room_def)
  have ro: "range_order [1, 7, 3, 2] (room smJ ''doc1'')"
    by (auto simp: j range_order_def)
  have c1: "carol = new_session ''2BkYUAcarolcarolcarolcarol0'' ''doc1'' ''carol'' ''Carol'' 7
     1700000000000000399 1700000000000000400"
    by (simp add: carol_def)
  have c2: "?join = \<lparr>msg_DocumentID = ''doc1'', Message = Join (UserID carol) (UserName carol),
                 Sender = Some 7\<rparr>"
    by (simp add: carol_def new_session_def)
  have c3: "yjsRepo pending_room = Some demo_log" "available demo_log"
    by (simp_all add: pending_room_def logged_room_def SetYjsRepository_def demo_log_def)
  have c5: "filter (\<lambda>u. upd_DocumentID u = ''doc1'') (rows demo_log) =
      [rows demo_log ! 0, rows demo_log ! 2]"
    "CreatedAt (rows demo_log ! 0) < CreatedAt (rows demo_log ! 2)"
    by (simp_all add: demo_log_def)
  have u: "Update (rows demo_log ! 0) = [1, 1]" "Update (rows demo_log ! 2) = [2, 2]"
    "UserID carol = ''carol''" "UserName carol = ''Carol''"
    by (simp_all add: demo_log_def carol_def new_session_def)
  have br: "broadcast smR =
       [\<lparr>msg_DocumentID = ''doc1'', Message = Raw [9], Sender = Some 1\<rparr>, ?join]"
    "room smR ''doc1'' = {1, 2, 3, 7}"
    by (simp_all add: smR_def pending_room_def room_def)
  note t = join_sends_history_and_announces[OF c1 c2 c3 c5 refl st refl refl, unfolded u]
  have "\<forall>r \<in> room smJ ''doc1''. r \<noteq> 7 \<longrightarrow> has_room smJ r"
    using j by simp
  with t[where smJ = smJ and pending = "[]" and ord = "[1, 7, 3, 2]",
      THEN conjunct2, THEN conjunct2, THEN conjunct2] j(1) ro
  obtain smK where k: "step (Deliver [1, 7, 3, 2]) smJ = Done smK" "broadcast smK = []"
    and "\<forall>r \<in> {1, 2, 3, 7}. r \<noteq> 7 \<longrightarrow> queue smK r = queue smJ r @ [Join ''carol'' ''Carol'']"
    and "queue smK 7 = queue smJ 7"
    unfolding j(2) by blast
  then have qk: "queue smK 1 = [Join ''carol'' ''Carol'']"
    "queue smK 2 = [Raw [9], Join ''carol'' ''Carol'']"
    "queue smK 3 = [Raw [9], Join ''carol'' ''Carol'']"
    "queue smK 7 = [Raw [9], Raw [1, 1]]"
    using j by simp_all
  have "\<exists>smB. run ?between smJ = Done smB \<and> has_room smB 7 \<and>
      queue smB 7 = [Raw [9], Raw [1, 1], Raw [8]] \<and> GetAwareness ''doc1'' smB = None \<and>
      ch_cap (Send (sessions smB 7)) = 256 \<and> DocumentID (sessions smB 7) = ''doc1''"
    using ra
    by (auto simp: smJ_def enqueue_def smR_def pending_room_def logged_room_def
        SetYjsRepository_def demo_room_def
        handleBroadcast_def room_def Broadcast_def send_broadcast_def broadcast_cap_def
        try_send_def set_send_def demo_heap_def new_session_def carol_def send_cap_def
        queue_def GetAwareness_def has_room_def)
  then obtain smB where rb: "run ?between smJ = Done smB" and hb: "has_room smB 7"
    and qb: "queue smB 7 = [Raw [9], Raw [1, 1], Raw [8]]"
    and gb: "GetAwareness ''doc1'' smB = None" "ch_cap (Send (sessions smB 7)) = 256"
      "DocumentID (sessions smB 7) = ''doc1''"
    by blast
  have o1: "others [?before, ?between] smR = Some ([?between], smA)"
    using ra by (rule others_Done)
  have o2: "others [?between] (enqueue (Raw [1, 1]) 7 smA) = Some ([], smB)"
    using rb[unfolded smJ_def] by (rule others_Done)
  have nr: "Receive 7 \<notin> set (concat [?before, ?between])" by simp
  from t[where schedule = "[?before, ?between]" and later = "[?between]" and smA = smA
        and rest = "[]" and smB = smB and marshals = marshals_all,
      THEN conjunct2, THEN conjunct2, THEN conjunct1] o1 a(1) o2 hb nr
  obtain sm1 where s1: "stands_at (HandleDocumentConnection Taken marshals_all 7 carol
       [?before, ?between] pending_room) sm1"
    and d1: "length (queue (enqueue (Raw [2, 2]) 7 smB) 7)
         < ch_cap (Send (sessions (enqueue (Raw [2, 2]) 7 smB) 7)) \<longrightarrow>
       HandleDocumentConnection Taken marshals_all 7 carol
         [?before, ?between] pending_room = Done sm1"
    and e1: "HandleDocumentConnection Taken marshals_all 7 carol
         [?before, ?between] pending_room =
       send_awareness marshals_all 7 [] (enqueue (Raw [2, 2]) 7 smB)"
    by blast
  have dn: "HandleDocumentConnection Taken marshals_all 7 carol
         [?before, ?between] pending_room = Done sm1"
    using d1 qb gb by simp
  have "send_awareness marshals_all 7 [] (enqueue (Raw [2, 2]) 7 smB) =
      Done (enqueue (Raw [2, 2]) 7 smB)"
    using hb gb
    by (subst send_awareness_result) (simp_all add: has_room_def GetAwareness_def)
  with e1 dn have "sm1 = enqueue (Raw [2, 2]) 7 smB" by simp
  then have q7: "queue sm1 7 = [Raw [9], Raw [1, 1], Raw [8], Raw [2, 2]]"
    using qb by simp
  show ?thesis
    using reg br ra a(1,2) rb hb dn q7 ro k(1) qk
    unfolding smJ_def by blast
qed

text \<open>
  C7 as stated fails in four ways. A member whose buffer is full does not get the join
  message: session 2 is in the room when the new session joins, the message reaches
  session 1, and session 2's buffer is what it was. The replay does not put both
  updates on the new channel when the hub has filled it in the meantime: 255
  broadcasts were delivered to the new session before the first update was sent, the
  first update takes the last place and the second is dropped. When the hub's
  broadcast buffer is full, \<open>handleRegister\<close> does not queue the join message: the hub
  is parked at that send and the buffer is what it was. And a member that is
  unregistered before the hub comes to the join message does not get it: session 3 was
  in the room when the new session joined, and its buffer stays empty when the
  message reaches session 1.
\<close>

theorem join_scenario_fails:
  "members_at ''doc1''
     (HandleDocumentConnection Taken marshals_all 7 carol [] logged_stalled_room) =
     Some {1, 2, 3, 7} \<and>
   queue_at 1 (and_then (HandleDocumentConnection Taken marshals_all 7 carol [] logged_stalled_room)
                (step (Deliver [1, 2, 3, 7]))) = Some [Join ''carol'' ''Carol''] \<and>
   queue_at 2 (and_then (HandleDocumentConnection Taken marshals_all 7 carol [] logged_stalled_room)
                (step (Deliver [1, 2, 3, 7]))) = Some (replicate 256 (Raw [])) \<and>
   queue_at 7 (HandleDocumentConnection Taken marshals_all 7 carol
                [admitted @ concat (replicate 255 flood)] logged_room) =
     Some (replicate 255 (Raw []) @ [Raw [1, 1]]) \<and>
   parked (step (Register 7) (busy_room\<lparr>sessions := (sessions busy_room)(7 := carol)\<rparr>)) \<and>
   pending_at (step (Register 7) (busy_room\<lparr>sessions := (sessions busy_room)(7 := carol)\<rparr>)) =
     Some (broadcast busy_room) \<and>
   members_at ''doc1'' (HandleDocumentConnection Taken marshals_all 7 carol [] logged_room) =
     Some {1, 2, 3, 7} \<and>
   queue_at 1 (and_then (HandleDocumentConnection Taken marshals_all 7 carol [] logged_room)
                (run [Unregister 3, Deliver [1, 2, 3, 7]])) = Some [Join ''carol'' ''Carol''] \<and>
   queue_at 3 (and_then (HandleDocumentConnection Taken marshals_all 7 carol [] logged_room)
                (run [Unregister 3, Deliver [1, 2, 3, 7]])) = Some []"
proof -
  have full: "members_at ''doc1''
     (HandleDocumentConnection Taken marshals_all 7 carol [] logged_stalled_room) =
     Some {1, 2, 3, 7} \<and>
   queue_at 1 (and_then (HandleDocumentConnection Taken marshals_all 7 carol [] logged_stalled_room)
                (step (Deliver [1, 2, 3, 7]))) = Some [Join ''carol'' ''Carol''] \<and>
   queue_at 2 (and_then (HandleDocumentConnection Taken marshals_all 7 carol [] logged_stalled_room)
                (step (Deliver [1, 2, 3, 7]))) = Some (replicate 256 (Raw []))"
    by (auto simp: logged_stalled_room_def SetYjsRepository_def stalled_room_def demo_room_def
      room_def HandleDocumentConnection_def handleRegister_def send_broadcast_def
      broadcast_cap_def sendInitialState_def GetAllUpdates_def demo_log_def carol_def
      new_session_def send_awareness_def GetAwareness_def try_send_def set_send_def
      send_cap_def and_then_def queue_at_def queue_def handleBroadcast_def saturated_def
      demo_heap_def members_at_def Let_def)
  have "HandleDocumentConnection Taken marshals_all 7 carol
          [admitted @ concat (replicate 255 flood)] logged_room =
        sendInitialState marshals_all 7 [admitted @ concat (replicate 255 flood)] joined_room"
    by (simp add: HandleDocumentConnection_def joined_room_registered)
  also have "\<dots> = send_awareness marshals_all 7 [] (enqueue (Raw [1, 1]) 7 (crowd 255))"
    using crowd_reachable[of 255]
    by (simp add: sendInitialState_def joined_room_def logged_room_def SetYjsRepository_def
        demo_room_def GetAllUpdates_def demo_log_def carol_def new_session_def others_def
        crowd_def try_send_def set_send_def send_cap_def enqueue_def)
  also have "\<dots> = Done (enqueue (Raw [1, 1]) 7 (crowd 255))"
    by (simp add: send_awareness_def GetAwareness_def enqueue_def set_send_def crowd_def
        logged_room_def SetYjsRepository_def demo_room_def)
  finally have late: "queue_at 7 (HandleDocumentConnection Taken marshals_all 7 carol
                [admitted @ concat (replicate 255 flood)] logged_room) =
     Some (replicate 255 (Raw []) @ [Raw [1, 1]])"
    by (simp add: queue_at_def crowd_def queue_def enqueue_def set_send_def)
  have busy: "parked (step (Register 7) (busy_room\<lparr>sessions := (sessions busy_room)(7 := carol)\<rparr>)) \<and>
   pending_at (step (Register 7) (busy_room\<lparr>sessions := (sessions busy_room)(7 := carol)\<rparr>)) =
     Some (broadcast busy_room)"
    by (simp add: busy_room_def logged_room_def SetYjsRepository_def demo_room_def
      handleRegister_def send_broadcast_def broadcast_cap_def parked_def pending_at_def
      Let_def)
  have gone: "members_at ''doc1'' (HandleDocumentConnection Taken marshals_all 7 carol [] logged_room) =
     Some {1, 2, 3, 7} \<and>
   queue_at 1 (and_then (HandleDocumentConnection Taken marshals_all 7 carol [] logged_room)
                (run [Unregister 3, Deliver [1, 2, 3, 7]])) = Some [Join ''carol'' ''Carol''] \<and>
   queue_at 3 (and_then (HandleDocumentConnection Taken marshals_all 7 carol [] logged_room)
                (run [Unregister 3, Deliver [1, 2, 3, 7]])) = Some []"
    by (auto simp: logged_room_def SetYjsRepository_def demo_room_def
      room_def HandleDocumentConnection_def handleRegister_def handleUnregister_def
      remove_awareness_def send_broadcast_def
      broadcast_cap_def sendInitialState_def GetAllUpdates_def demo_log_def carol_def
      new_session_def send_awareness_def GetAwareness_def try_send_def set_send_def
      send_cap_def and_then_def queue_at_def queue_def handleBroadcast_def
      demo_heap_def members_at_def Let_def)
  show ?thesis using full late busy gone by blast
qed

subsection \<open>Awareness entries and sessions\<close>

lemma maps_apart_new: "maps_apart (NewSessionManager heap)"
  by (simp add: maps_apart_def NewSessionManager_def)

lemma awareness_step:
  assumes "stands_at (step e sm) sm'"
  shows "(case e of
            CallUpdateAwareness d c a \<Rightarrow> sm' = UpdateAwareness d c a sm
          | _ \<Rightarrow> awareness sm' = awareness sm \<and> next_mref sm' = next_mref sm)"
proof (cases e)
  case (Register s)
  then show ?thesis using assms frame_handleRegister[of s sm sm'] by simp
next
  case (Unregister s)
  then show ?thesis using assms frame_handleUnregister[of s sm sm'] by simp
next
  case (Deliver ord)
  then show ?thesis
    using assms frame_handleBroadcast[of ord _ _ sm']
    by (auto split: list.splits)
next
  case (CallBroadcast d m s)
  then show ?thesis
    using assms by (auto simp: Broadcast_def send_broadcast_def split: if_splits)
next
  case (CallUpdateAwareness d c a)
  then show ?thesis using assms by simp
next
  case (Receive s)
  then show ?thesis using assms by (auto simp: set_send_def)
next
  case (Active s now)
  then show ?thesis using assms by auto
qed

lemma maps_apart_UpdateAwareness:
  assumes "maps_apart sm"
  shows "maps_apart (UpdateAwareness d c a sm)"
proof (cases "awareness sm d")
  case None
  then show ?thesis
    using assms
    by (auto simp: maps_apart_def UpdateAwareness_def Let_def less_Suc_eq split: if_splits)
next
  case (Some m)
  then show ?thesis
    using assms by (simp add: maps_apart_def UpdateAwareness_def)
qed

lemma maps_apart_step:
  assumes "maps_apart sm" and "stands_at (step e sm) sm'"
  shows "maps_apart sm'"
  using assms(1) awareness_step[OF assms(2)] maps_apart_UpdateAwareness[OF assms(1)]
  by (cases e) (simp_all add: maps_apart_def)

lemma reachable_maps_apart:
  "stands_at (run es (NewSessionManager heap)) sm \<Longrightarrow> maps_apart sm"
  using maps_apart_new maps_apart_step by (rule run_invariant)


lemma aware_maps_handleUnregister:
  assumes "stands_at (handleUnregister r sm) sm'"
  shows "aware_maps sm' =
     (if registered sm r
      then (case awareness sm (DocumentID (sessions sm r)) of
              None \<Rightarrow> aware_maps sm
            | Some m \<Rightarrow> (aware_maps sm)(m := (aware_maps sm m)(ClientID (sessions sm r) := None)))
      else aware_maps sm)"
  using assms
  by (auto simp: handleUnregister_def Let_def registered_def room_def set_send_def
      remove_awareness_def split: option.splits if_splits dest!: stands_at_send_broadcast)

lemma registered_handleUnregister:
  assumes "stands_at (handleUnregister r sm) sm'" and "registered sm' x"
  shows "registered sm x \<and> x \<noteq> r \<or> (registered sm x \<and> \<not> registered sm r)"
proof -
  have id: "DocumentID (sessions sm' x) = DocumentID (sessions sm x)"
    using frame_handleUnregister[OF assms(1)] by (simp add: same_identity_def)
  show ?thesis
    using assms(2) documents_handleUnregister[OF assms(1)]
    by (auto simp: registered_def id room_def split: if_splits option.splits)
qed

lemma orphan_handleUnregister:
  assumes "maps_apart sm" and "awareness sm d = Some m" and "aware_maps sm m c = Some st"
    and "unowned sm d c" and "stands_at (handleUnregister r sm) sm'"
  shows "maps_apart sm' \<and> awareness sm' d = Some m \<and> aware_maps sm' m c = Some st \<and>
         unowned sm' d c"
proof -
  have fr: "awareness sm' = awareness sm" "next_mref sm' = next_mref sm" "same_identity sm sm'"
    using frame_handleUnregister[OF assms(5)] by simp_all
  have 1: "maps_apart sm'" using assms(1) fr by (simp add: maps_apart_def)
  have 2: "awareness sm' d = Some m" using assms(2) fr by simp
  have 3: "aware_maps sm' m c = Some st"
  proof (cases "registered sm r")
    case False
    then show ?thesis using aware_maps_handleUnregister[OF assms(5)] assms(3) by simp
  next
    case True
    then have no: "\<not> (DocumentID (sessions sm r) = d \<and> ClientID (sessions sm r) = c)"
      using assms(4) by (simp add: unowned_def)
    show ?thesis
    proof (cases "awareness sm (DocumentID (sessions sm r))")
      case None
      then show ?thesis using aware_maps_handleUnregister[OF assms(5)] True assms(3) by simp
    next
      case (Some m')
      have "m' = m \<Longrightarrow> DocumentID (sessions sm r) = d"
        using assms(1,2) Some by (auto simp: maps_apart_def)
      then show ?thesis
        using aware_maps_handleUnregister[OF assms(5)] True Some assms(3) no by auto
    qed
  qed
  have 4: "unowned sm' d c"
    unfolding unowned_def
  proof (intro allI impI)
    fix x assume "registered sm' x"
    then have "registered sm x" using registered_handleUnregister[OF assms(5)] by blast
    then show "\<not> (DocumentID (sessions sm' x) = d \<and> ClientID (sessions sm' x) = c)"
      using assms(4) fr(3) by (simp add: unowned_def same_identity_def)
  qed
  from 1 2 3 4 show ?thesis by simp
qed

lemma orphan_run_Unregister:
  assumes "maps_apart sm" and "awareness sm d = Some m" and "aware_maps sm m c = Some st"
    and "unowned sm d c" and "stands_at (run (map Unregister rs) sm) sm'"
  shows "awareness sm' d = Some m \<and> aware_maps sm' m c = Some st"
  using assms
proof (induction rs arbitrary: sm)
  case Nil
  then show ?case by simp
next
  case (Cons r rs)
  from Cons.prems(5) have
    "stands_at (step (Unregister r) sm) sm' \<or>
     (\<exists>sm1. step (Unregister r) sm = Done sm1 \<and> stands_at (run (map Unregister rs) sm1) sm')"
    using stands_at_run_Cons[of "Unregister r" "map Unregister rs" sm sm'] by simp
  then show ?case
  proof
    assume "stands_at (step (Unregister r) sm) sm'"
    then have "stands_at (handleUnregister r sm) sm'" by simp
    from orphan_handleUnregister[OF Cons.prems(1-4) this] show ?thesis by simp
  next
    assume "\<exists>sm1. step (Unregister r) sm = Done sm1 \<and> stands_at (run (map Unregister rs) sm1) sm'"
    then obtain sm1 where s: "handleUnregister r sm = Done sm1"
      and r: "stands_at (run (map Unregister rs) sm1) sm'" by auto
    from s have "stands_at (handleUnregister r sm) sm1" by simp
    from orphan_handleUnregister[OF Cons.prems(1-4) this]
    have "maps_apart sm1" "awareness sm1 d = Some m" "aware_maps sm1 m c = Some st"
      "unowned sm1 d c" by simp_all
    from Cons.IH[OF this r] show ?thesis .
  qed
qed

lemma orphan_UpdateAwareness:
  assumes "maps_apart sm" and "unowned sm d c"
  shows "\<exists>m. maps_apart (UpdateAwareness d c st sm) \<and>
     awareness (UpdateAwareness d c st sm) d = Some m \<and>
     aware_maps (UpdateAwareness d c st sm) m c = Some st \<and>
     unowned (UpdateAwareness d c st sm) d c"
proof -
  have "sessions (UpdateAwareness d c st sm) = sessions sm"
    and "documents (UpdateAwareness d c st sm) = documents sm"
    by (simp_all add: UpdateAwareness_def Let_def split: option.splits)
  then have "unowned (UpdateAwareness d c st sm) d c"
    using assms(2) by (simp add: unowned_def registered_def room_def)
  moreover have "\<exists>m. awareness (UpdateAwareness d c st sm) d = Some m \<and>
     aware_maps (UpdateAwareness d c st sm) m c = Some st"
    by (simp add: UpdateAwareness_def Let_def split: option.splits)
  ultimately show ?thesis using maps_apart_UpdateAwareness[OF assms(1)] by blast
qed

text \<open>
  C10, as the code has it. Awareness entries are keyed by document and client id only.
  In every reachable state, when two registered sessions of one document carry the same
  client id, \<open>handleUnregister\<close> of the one leaves the other registered and the entry
  under their client id absent. And \<open>UpdateAwareness\<close> asks for no session: for a pair
  of document and client id that no registered session carries it makes the entry, and
  whatever sessions are unregistered afterwards, the entry stays.
\<close>

theorem awareness_keyed_by_client_id:
  assumes "stands_at (run es (NewSessionManager heap)) sm"
  shows "(\<forall>a b sm'. a \<noteq> b \<and> registered sm a \<and> registered sm b \<and>
            DocumentID (sessions sm a) = DocumentID (sessions sm b) \<and>
            ClientID (sessions sm a) = ClientID (sessions sm b) \<and>
            stands_at (handleUnregister a sm) sm' \<longrightarrow>
            registered sm' b \<and>
            lookup_awareness sm' (DocumentID (sessions sm b)) (ClientID (sessions sm b)) = None) \<and>
         (\<forall>d c st rs sm'. unowned sm d c \<and>
            stands_at (run (map Unregister rs) (UpdateAwareness d c st sm)) sm' \<longrightarrow>
            lookup_awareness (UpdateAwareness d c st sm) d c = Some st \<and>
            lookup_awareness sm' d c = Some st)"
proof (intro conjI allI impI)
  fix a b sm'
  assume h: "a \<noteq> b \<and> registered sm a \<and> registered sm b \<and>
            DocumentID (sessions sm a) = DocumentID (sessions sm b) \<and>
            ClientID (sessions sm a) = ClientID (sessions sm b) \<and>
            stands_at (handleUnregister a sm) sm'"
  then have st: "stands_at (handleUnregister a sm) sm'" and ra: "registered sm a" by simp_all
  have id: "DocumentID (sessions sm' b) = DocumentID (sessions sm b)"
    using frame_handleUnregister[OF st] by (simp add: same_identity_def)
  show "registered sm' b"
    using h documents_handleUnregister[OF st]
    by (auto simp: registered_def id room_def split: option.splits)
  show "lookup_awareness sm' (DocumentID (sessions sm b)) (ClientID (sessions sm b)) = None"
    using awareness_handleUnregister[OF ra st] h
    by (auto simp: lookup_awareness_def split: option.splits)
next
  fix d c st rs sm'
  assume h: "unowned sm d c \<and>
            stands_at (run (map Unregister rs) (UpdateAwareness d c st sm)) sm'"
  have ma: "maps_apart sm" using assms by (rule reachable_maps_apart)
  from orphan_UpdateAwareness[OF ma, of d c st] h obtain m where
    o: "maps_apart (UpdateAwareness d c st sm)"
      "awareness (UpdateAwareness d c st sm) d = Some m"
      "aware_maps (UpdateAwareness d c st sm) m c = Some st"
      "unowned (UpdateAwareness d c st sm) d c"
    by blast
  show "lookup_awareness (UpdateAwareness d c st sm) d c = Some st"
    using o by (simp add: lookup_awareness_def GetAwareness_def)
  from h have "stands_at (run (map Unregister rs) (UpdateAwareness d c st sm)) sm'" by simp
  from orphan_run_Unregister[OF o this]
  show "lookup_awareness sm' d c = Some st"
    by (simp add: lookup_awareness_def GetAwareness_def)
qed


theorem awareness_keyed_by_client_id_witness:
  "\<exists>sm sm' sm''.
     run [Register 1, Register 2, CallUpdateAwareness ''doc1'' 1 100]
       (NewSessionManager twin_heap) = Done sm \<and>
     registered sm 1 \<and> registered sm 2 \<and>
     ClientID (sessions sm 1) = ClientID (sessions sm 2) \<and>
     lookup_awareness sm ''doc1'' 1 = Some 100 \<and>
     handleUnregister 1 sm = Done sm' \<and>
     registered sm' 2 \<and> lookup_awareness sm' ''doc1'' 1 = None \<and>
     unowned sm ''doc1'' 9 \<and>
     run (map Unregister [2, 1]) (UpdateAwareness ''doc1'' 9 900 sm) = Done sm'' \<and>
     lookup_awareness sm'' ''doc1'' 9 = Some 900"
proof -
  have "\<exists>sm. run [Register 1, Register 2, CallUpdateAwareness ''doc1'' 1 100]
       (NewSessionManager twin_heap) = Done sm \<and>
     registered sm 1 \<and> registered sm 2 \<and>
     DocumentID (sessions sm 1) = ''doc1'' \<and> DocumentID (sessions sm 2) = ''doc1'' \<and>
     ClientID (sessions sm 1) = 1 \<and> ClientID (sessions sm 2) = 1 \<and>
     lookup_awareness sm ''doc1'' 1 = Some 100 \<and>
     (\<exists>sm'. handleUnregister 1 sm = Done sm') \<and>
     unowned sm ''doc1'' 9 \<and>
     (\<exists>sm''. run (map Unregister [2, 1]) (UpdateAwareness ''doc1'' 9 900 sm) = Done sm'')"
    by (simp add: demo_defs twin_heap_def registered_def UpdateAwareness_def GetAwareness_def
        lookup_awareness_def unowned_def)
  then obtain sm sm' sm'' where
    r: "run [Register 1, Register 2, CallUpdateAwareness ''doc1'' 1 100]
       (NewSessionManager twin_heap) = Done sm"
    and g: "registered sm 1" "registered sm 2"
    and i: "DocumentID (sessions sm 1) = ''doc1''" "DocumentID (sessions sm 2) = ''doc1''"
       "ClientID (sessions sm 1) = 1" "ClientID (sessions sm 2) = 1"
    and l: "lookup_awareness sm ''doc1'' 1 = Some 100"
    and u: "handleUnregister 1 sm = Done sm'"
    and o: "unowned sm ''doc1'' 9"
    and v: "run (map Unregister [2, 1]) (UpdateAwareness ''doc1'' 9 900 sm) = Done sm''"
    by blast
  have s: "stands_at (run [Register 1, Register 2, CallUpdateAwareness ''doc1'' 1 100]
       (NewSessionManager twin_heap)) sm" using r by simp
  note t = awareness_keyed_by_client_id[OF s]
  have "registered sm' 2 \<and> lookup_awareness sm' ''doc1'' 1 = None"
    using t[THEN conjunct1, rule_format, of 1 2 sm'] g i u by simp
  moreover have "lookup_awareness sm'' ''doc1'' 9 = Some 900"
    using t[THEN conjunct2, rule_format, of "''doc1''" 9 "[2, 1]" 900 sm''] o v by simp
  ultimately show ?thesis using r g i l u o v by auto
qed

text \<open>
  C10 as stated says no unregister will ever remove such an entry. One does: the entry
  is made while no session is registered at all; a session that registers later with
  that document and client id removes it when it is unregistered.
\<close>

theorem orphan_entry_removed_by_later_session:
  "documents (NewSessionManager demo_heap) = Map.empty \<and>
   entry_at ''doc1'' 3
     (run [CallUpdateAwareness ''doc1'' 3 100] (NewSessionManager demo_heap)) = Some (Some 100) \<and>
   entry_at ''doc1'' 3
     (run [CallUpdateAwareness ''doc1'' 3 100, Register 3, Unregister 3]
        (NewSessionManager demo_heap)) = Some None"
  by (simp add: demo_defs UpdateAwareness_def GetAwareness_def lookup_awareness_def entry_at_def)

end
